theory Spec2Isabelle
  imports Complex_Main "HOL-Library.Word"
begin

section \<open>Data model\<close>

text \<open>
  The model follows \<^verbatim>\<open>src/models.hpp\<close> and \<^verbatim>\<open>src/models.cc\<close> (namespace
  \<^verbatim>\<open>dtd::models\<close>). The numbers a model is built from (the matrices \<open>X\<close>, \<open>Y\<close>, \<open>C\<close>,
  the weight vector, the arguments of the projection operators) are finite
  \<^verbatim>\<open>double\<close>s, idealised as \<^typ>\<open>real\<close>: rounding and overflow are outside the model.
  What the regression computes from them need not be finite, because the code divides
  without testing the divisor; these values are of the type \<open>dbl\<close> below. An Eigen vector
  is the list of its coefficients. An Eigen dense matrix is its two dimensions together
  with its coefficient function; only the coefficients inside the dimensions are
  meaningful. Loop counters are natural numbers, which agrees with the \<^verbatim>\<open>int\<close> and
  \<^verbatim>\<open>unsigned int\<close> counters of the source for every vector of fewer than \<open>2^31\<close>
  coefficients.
\<close>

text \<open>
  A computed \<^verbatim>\<open>double\<close>: a finite number, the value NaN, or \<open>Undet\<close>, a value that
  the model does not determine. \<open>Undet\<close> stands for an infinity, whose sign would depend
  on the sign of a zero divisor, and for whatever is computed from one; nothing is
  proved about an \<open>Undet\<close> coefficient except that it need not be a finite number.
\<close>

datatype dbl = Fin real | NaN | Undet

text \<open>
  An arithmetic operation of two \<^verbatim>\<open>double\<close>s: NaN if an operand is NaN, else not
  determined if an operand is not, else the operation on the two finite numbers.
\<close>

fun arith :: "(real \<Rightarrow> real \<Rightarrow> real) \<Rightarrow> dbl \<Rightarrow> dbl \<Rightarrow> dbl" where
  "arith f (Fin x) (Fin y) = Fin (f x y)"
| "arith f NaN b = NaN"
| "arith f (Fin x) NaN = NaN"
| "arith f Undet NaN = NaN"
| "arith f (Fin x) Undet = Undet"
| "arith f Undet (Fin y) = Undet"
| "arith f Undet Undet = Undet"

text \<open>
  The quotient: \<open>0 / 0\<close> is NaN, and \<open>x / 0\<close> for a finite \<open>x \<noteq> 0\<close> is an infinity,
  which the model does not determine.
\<close>

fun quotient :: "dbl \<Rightarrow> dbl \<Rightarrow> dbl" where
  "quotient (Fin x) (Fin y) =
     (if y = 0 then (if x = 0 then NaN else Undet) else Fin (x / y))"
| "quotient NaN b = NaN"
| "quotient (Fin x) NaN = NaN"
| "quotient Undet NaN = NaN"
| "quotient (Fin x) Undet = Undet"
| "quotient Undet (Fin y) = Undet"
| "quotient Undet Undet = Undet"

instantiation dbl :: "{zero, one, plus, minus, times, inverse}"
begin

definition zero_dbl :: dbl where
  "zero_dbl = Fin 0"

definition one_dbl :: dbl where
  "one_dbl = Fin 1"

definition plus_dbl :: "dbl \<Rightarrow> dbl \<Rightarrow> dbl" where
  "plus_dbl a b = arith (+) a b"

definition minus_dbl :: "dbl \<Rightarrow> dbl \<Rightarrow> dbl" where
  "minus_dbl a b = arith (-) a b"

definition times_dbl :: "dbl \<Rightarrow> dbl \<Rightarrow> dbl" where
  "times_dbl a b = arith (*) a b"

definition divide_dbl :: "dbl \<Rightarrow> dbl \<Rightarrow> dbl" where
  "divide_dbl a b = quotient a b"

definition inverse_dbl :: "dbl \<Rightarrow> dbl" where
  "inverse_dbl a = quotient (Fin 1) a"

instance ..

end

instance dbl :: comm_monoid_add
proof
  fix a b c :: dbl
  show "a + b + c = a + (b + c)"
    by (cases a; cases b; cases c) (simp_all add: plus_dbl_def)
  show "a + b = b + a"
    by (cases a; cases b) (simp_all add: plus_dbl_def)
  show "0 + a = a"
    by (cases a) (simp_all add: plus_dbl_def zero_dbl_def)
qed

text \<open>
  \<^verbatim>\<open>std::min(a, b)\<close> is \<^verbatim>\<open>(b < a) ? b : a\<close>, and a comparison with NaN is false: the
  minimum of NaN and a number is NaN.
\<close>

fun std_min :: "dbl \<Rightarrow> dbl \<Rightarrow> dbl" where
  "std_min (Fin x) (Fin y) = Fin (if y < x then y else x)"
| "std_min NaN b = NaN"
| "std_min (Fin x) NaN = Fin x"
| "std_min Undet NaN = Undet"
| "std_min (Fin x) Undet = Undet"
| "std_min Undet (Fin y) = Undet"
| "std_min Undet Undet = Undet"

type_synonym vec = "real list"

type_synonym dvec = "dbl list"

record 'a matrix =
  rows :: nat
  cols :: nat
  coeff :: "nat \<Rightarrow> nat \<Rightarrow> 'a"

type_synonym mat = "real matrix"

type_synonym dmat = "dbl matrix"

text \<open>Finite numbers as computed values.\<close>

definition fin_m :: "mat \<Rightarrow> dmat" where
  "fin_m A = \<lparr>rows = rows A, cols = cols A, coeff = (\<lambda>i j. Fin (coeff A i j))\<rparr>"

text \<open>
  Modelled from the spec: \<^verbatim>\<open>config.hpp\<close> is not among the sources, so the three
  enumerations it declares are reconstructed from the enumerators that \<^verbatim>\<open>models.cc\<close>
  names (\<^verbatim>\<open>SOFTMAX\<close>, \<^verbatim>\<open>IDENTITY\<close>, \<^verbatim>\<open>NORM2\<close>, \<^verbatim>\<open>POSITIVE\<close>). Every other
  value an enumeration object can hold is represented by its underlying integer.
\<close>

datatype ThresholdFunctions = SOFTMAX | ThresholdFunctions_other int

datatype NormFunctions = IDENTITY | NORM2 | NormFunctions_other int

datatype SubspaceFunctions = POSITIVE | SubspaceFunctions_other int

text \<open>
  The class \<^verbatim>\<open>GoertlerModel\<close>. \<^verbatim>\<open>models.hpp\<close> declares \<^verbatim>\<open>int m_ngenes\<close> and the
  matrices \<^verbatim>\<open>m_x\<close>, \<^verbatim>\<open>m_y\<close>, \<^verbatim>\<open>m_c\<close>. The member functions in \<^verbatim>\<open>models.cc\<close>
  also read \<^verbatim>\<open>m_ncells\<close>, \<^verbatim>\<open>m_nsamples\<close>, \<^verbatim>\<open>m_threshfn\<close>, \<^verbatim>\<open>m_normfn\<close> and
  \<^verbatim>\<open>m_subspfn\<close>; the two counts are taken to be \<^verbatim>\<open>int\<close> like \<^verbatim>\<open>m_ngenes\<close>.
\<close>

record GoertlerModel =
  m_ngenes :: "32 word"
  m_ncells :: "32 word"
  m_nsamples :: "32 word"
  m_x :: mat
  m_y :: mat
  m_c :: mat
  m_threshfn :: ThresholdFunctions
  m_normfn :: NormFunctions
  m_subspfn :: SubspaceFunctions

text \<open>
  Outcomes other than a normal return: a thrown \<^verbatim>\<open>std::runtime_error\<close> with its
  message, a failed \<^verbatim>\<open>assert\<close>, and the error \<open>DegenerateRow\<close> that the spec
  attributes to the statistics helpers.
\<close>

datatype error = runtime_error string | assertion_failure | DegenerateRow

section \<open>Projection operators\<close>

text \<open>\<^verbatim>\<open>template<typename T> int sgn(T x) { return (T(0) < x) - (x < T(0)); }\<close>\<close>

definition sgn_cpp :: "real \<Rightarrow> int" where
  "sgn_cpp x = (if 0 < x then 1 else 0) - (if x < 0 then 1 else 0)"

text \<open>
  \<^verbatim>\<open>softmax\<close>: the loop writes coefficient \<open>i\<close> of \<open>res\<close> in iteration \<open>i\<close>.
  \<^verbatim>\<open>vec res(v.size())\<close> leaves the coefficients uninitialised; the model starts
  from zeros, and \<open>softmax_loop_any_init\<close> below shows that the start value of no
  coefficient survives the loop.
\<close>

function softmax_loop :: "vec \<Rightarrow> real \<Rightarrow> nat \<Rightarrow> vec \<Rightarrow> vec" where
  "softmax_loop v softfactor i res =
     (if i < length v
      then softmax_loop v softfactor (i + 1)
             (res[i := real_of_int (sgn_cpp (v ! i)) * max (\<bar>v ! i\<bar> - softfactor) 0])
      else res)"
  by pat_completeness auto
termination
  by (relation "measure (\<lambda>(v, softfactor, i, res). length v - i)") auto

declare softmax_loop.simps [simp del]

definition softmax :: "vec \<Rightarrow> real \<Rightarrow> vec" where
  "softmax v softfactor = softmax_loop v softfactor 0 (replicate (length v) 0)"

text \<open>\<^verbatim>\<open>clampPos\<close> and \<^verbatim>\<open>clampNeg\<close> overwrite the vector they are given, coefficient by
  coefficient; the model returns the vector after the loop. \<^verbatim>\<open>clampPos\<close> is applied
  to the computed gradient only, \<^verbatim>\<open>clampNeg\<close> to the argument of
  \<^verbatim>\<open>subspace_constraint\<close> only.\<close>

function clampPos_loop :: "nat \<Rightarrow> dvec \<Rightarrow> dvec" where
  "clampPos_loop i x =
     (if i < length x then clampPos_loop (i + 1) (x[i := std_min (x ! i) (Fin 0)]) else x)"
  by pat_completeness auto
termination
  by (relation "measure (\<lambda>(i, x). length x - i)") auto

declare clampPos_loop.simps [simp del]

definition clampPos :: "dvec \<Rightarrow> dvec" where
  "clampPos x = clampPos_loop 0 x"

function clampNeg_loop :: "nat \<Rightarrow> vec \<Rightarrow> vec" where
  "clampNeg_loop i x =
     (if i < length x then clampNeg_loop (i + 1) (x[i := max (x ! i) 0]) else x)"
  by pat_completeness auto
termination
  by (relation "measure (\<lambda>(i, x). length x - i)") auto

declare clampNeg_loop.simps [simp del]

definition clampNeg :: "vec \<Rightarrow> vec" where
  "clampNeg x = clampNeg_loop 0 x"

definition threshold :: "GoertlerModel \<Rightarrow> vec \<Rightarrow> real \<Rightarrow> error + vec" where
  "threshold M v softfactor =
     (if m_threshfn M = SOFTMAX then Inr (softmax v softfactor)
      else Inl (runtime_error ''unimplemented threshold function.''))"

text \<open>Eigen's \<^verbatim>\<open>v.norm()\<close> is the square root of the sum of the squared coefficients.\<close>

definition norm_v :: "vec \<Rightarrow> real" where
  "norm_v v = sqrt (\<Sum>x\<leftarrow>v. x * x)"

text \<open>\<^verbatim>\<open>norm_constraint\<close> changes \<open>v\<close> in place; the model returns the new \<open>v\<close>.
  There is no test of the divisor in the source.\<close>

definition norm_constraint :: "GoertlerModel \<Rightarrow> vec \<Rightarrow> error + vec" where
  "norm_constraint M v =
     (if m_normfn M = IDENTITY then Inr v
      else if m_normfn M = NORM2 then Inr (map (\<lambda>x. x / norm_v v) v)
      else Inl (runtime_error ''unimplemented norm function. ''))"

definition subspace_constraint :: "GoertlerModel \<Rightarrow> vec \<Rightarrow> error + vec" where
  "subspace_constraint M v =
     (if m_subspfn M = POSITIVE then (let res = v in Inr (clampNeg res))
      else Inl (runtime_error ''unimplemented subspace constraint.''))"

section \<open>Dense linear algebra\<close>

text \<open>
  The Eigen operations that \<^verbatim>\<open>models.cc\<close> calls, for finite numbers and for computed
  values alike. Eigen requires matching dimensions for a product or a difference
  (\<open>cols A = rows B\<close>, equal shapes); the theorems below state these requirements where
  they matter.
\<close>

definition transpose_m :: "'a matrix \<Rightarrow> 'a matrix" where
  "transpose_m A = \<lparr>rows = cols A, cols = rows A, coeff = (\<lambda>i j. coeff A j i)\<rparr>"

definition asDiagonal :: "'a::zero list \<Rightarrow> 'a matrix" where
  "asDiagonal g =
     \<lparr>rows = length g, cols = length g, coeff = (\<lambda>i j. if i = j then g ! i else 0)\<rparr>"

definition Identity :: "nat \<Rightarrow> nat \<Rightarrow> 'a::{zero,one} matrix" where
  "Identity r c = \<lparr>rows = r, cols = c, coeff = (\<lambda>i j. if i = j then 1 else 0)\<rparr>"

definition mat_mul :: "'a::{comm_monoid_add,times} matrix \<Rightarrow> 'a matrix \<Rightarrow> 'a matrix" where
  "mat_mul A B =
     \<lparr>rows = rows A, cols = cols B,
      coeff = (\<lambda>i j. \<Sum>k<cols A. coeff A i k * coeff B k j)\<rparr>"

definition mat_sub :: "'a::minus matrix \<Rightarrow> 'a matrix \<Rightarrow> 'a matrix" where
  "mat_sub A B =
     \<lparr>rows = rows A, cols = cols A, coeff = (\<lambda>i j. coeff A i j - coeff B i j)\<rparr>"

definition row :: "'a matrix \<Rightarrow> nat \<Rightarrow> 'a list" where
  "row A i = map (coeff A i) [0..<cols A]"

definition set_row :: "'a matrix \<Rightarrow> nat \<Rightarrow> 'a list \<Rightarrow> 'a matrix" where
  "set_row A i v = A\<lparr>coeff := (coeff A)(i := (\<lambda>j. v ! j))\<rparr>"

definition diagonal :: "'a matrix \<Rightarrow> 'a list" where
  "diagonal A = map (\<lambda>i. coeff A i i) [0..<min (rows A) (cols A)]"

text \<open>
  Eigen's \<^verbatim>\<open>v.mean()\<close>: the sum of the coefficients divided by their number. For a
  vector without coefficients this is \<open>0 / 0\<close> here; the assertion that a debug build of
  Eigen makes of a non-empty operand is outside the model.
\<close>

definition mean :: "dvec \<Rightarrow> dbl" where
  "mean v = sum_list v / Fin (real (length v))"

text \<open>
  \<^verbatim>\<open>A.llt()\<close> copies \<open>A\<close> and factorises the copy in place, column by column,
  reading the lower triangle only. At column \<open>k\<close> the pivot is
  \<open>x = A(k,k) - \<Sum>j<k. L(k,j)\<^sup>2\<close>; when \<open>x \<le> 0\<close> the factorisation stops and reports
  \<open>k\<close> (Eigen's \<^verbatim>\<open>NumericalIssue\<close>), leaving the columns from \<open>k\<close> on as they were;
  otherwise \<open>L(k,k) = sqrt x\<close> and the rest of the column is
  \<open>L(i,k) = (A(i,k) - \<Sum>j<k. L(i,j) * L(k,j)) / L(k,k)\<close>. The result \<open>-1\<close> means
  success. Nothing is thrown in either case. The only divisor is \<open>sqrt x\<close> with
  \<open>0 < x\<close>, so the factor of finite data is finite. Eigen is a library outside the
  repository;
  this is its unblocked algorithm, which it runs as it stands below size 32 and on
  the diagonal blocks of its blocked variant above, with the same factor in exact
  arithmetic whenever the factorisation succeeds.
\<close>

function llt_unblocked :: "nat \<Rightarrow> mat \<Rightarrow> mat \<times> int" where
  "llt_unblocked k m =
     (if k < rows m
      then (let x = coeff m k k - (\<Sum>j<k. coeff m k j * coeff m k j)
            in if x \<le> 0 then (m, int k)
               else llt_unblocked (k + 1)
                      (m\<lparr>coeff := (\<lambda>i j.
                           if i = k \<and> j = k then sqrt x
                           else if k < i \<and> i < rows m \<and> j = k
                           then (coeff m i k - (\<Sum>l<k. coeff m i l * coeff m k l)) / sqrt x
                           else coeff m i j)\<rparr>))
      else (m, - 1))"
  by pat_completeness auto
termination
  by (relation "measure (\<lambda>(k, m). rows m - k)") auto

declare llt_unblocked.simps [simp del]

text \<open>
  \<^verbatim>\<open>solve(B)\<close> copies \<open>B\<close> and solves in place, first with the lower triangle \<open>L\<close>
  of the factorised copy (top row first), then with its transpose (bottom row first).
  It does not look at the outcome of the factorisation: each row is divided by the
  diagonal coefficient of \<open>L\<close>, which after a failed factorisation may be zero.
\<close>

function solve_lower ::
  "'a::{comm_monoid_add,times,minus,inverse} matrix \<Rightarrow> nat \<Rightarrow> 'a matrix \<Rightarrow> 'a matrix" where
  "solve_lower L i B =
     (if i < rows L
      then solve_lower L (i + 1)
             (B\<lparr>coeff := (coeff B)(i := (\<lambda>c.
                  (coeff B i c - (\<Sum>j<i. coeff L i j * coeff B j c)) / coeff L i i))\<rparr>)
      else B)"
  by pat_completeness auto
termination
  by (relation "measure (\<lambda>(L, i, B). rows L - i)") auto

declare solve_lower.simps [simp del]

fun solve_upper ::
  "'a::{comm_monoid_add,times,minus,inverse} matrix \<Rightarrow> nat \<Rightarrow> 'a matrix \<Rightarrow> 'a matrix" where
  "solve_upper L 0 B = B"
| "solve_upper L (Suc i) B =
     solve_upper L i
       (B\<lparr>coeff := (coeff B)(i := (\<lambda>c.
            (coeff B i c - (\<Sum>j\<in>{i + 1..<rows L}. coeff L j i * coeff B j c)) / coeff L i i))\<rparr>)"

definition llt_solve :: "mat \<Rightarrow> mat \<Rightarrow> dmat" where
  "llt_solve A B =
     (let L = fin_m (fst (llt_unblocked 0 A))
      in solve_upper L (rows L) (solve_lower L 0 (fin_m B)))"

section \<open>The weighted regression solve and the estimate\<close>

definition invxtgx :: "mat \<Rightarrow> vec \<Rightarrow> dmat" where
  "invxtgx x g =
     (let xtgx = mat_mul (mat_mul (transpose_m x) (asDiagonal g)) x;
          xi = llt_solve xtgx (Identity (cols x) (cols x))
      in xi)"

definition estimate_c_direct ::
  "'a::{comm_monoid_add,times} matrix \<Rightarrow> 'a matrix \<Rightarrow> 'a list \<Rightarrow> 'a matrix \<Rightarrow> 'a matrix" where
  "estimate_c_direct x y g xtgxi =
     mat_mul (mat_mul (mat_mul xtgxi (transpose_m x)) (asDiagonal g)) y"

section \<open>The statistics helpers\<close>

text \<open>
  \<^verbatim>\<open>stat::cor\<close>, \<^verbatim>\<open>stat::std\<close> and \<^verbatim>\<open>stat::cov\<close> come from \<^verbatim>\<open>utils.hpp\<close>,
  which is not among the sources. The model functions take them as a parameter \<open>S\<close>;
  each may return a value or raise.
\<close>

record stat =
  stat_cor :: "dvec \<Rightarrow> dvec \<Rightarrow> error + dbl"
  stat_std :: "dvec \<Rightarrow> error + dbl"
  stat_cov :: "dvec \<Rightarrow> dvec \<Rightarrow> error + dbl"

text \<open>
  Modelled from the spec: the statistics library of \<^verbatim>\<open>utils.hpp\<close> as the spec
  describes it, that is mean, standard deviation, covariance and Pearson correlation of
  numeric sequences, where a row of zero variance makes the correlation an error
  (\<open>DegenerateRow\<close>). The normalisation by the number of samples is the one the
  gradient formula of \<^verbatim>\<open>grad_explicit_inverse\<close> presupposes. The spec describes the
  helpers for non-empty sequences of finite numbers; for a sequence that holds another
  value the result is left undetermined, and for an empty sequence it is \<open>0 / 0\<close>.
\<close>

definition mean_spec :: "vec \<Rightarrow> real" where
  "mean_spec v = sum_list v / real (length v)"

definition cov_spec :: "vec \<Rightarrow> vec \<Rightarrow> real" where
  "cov_spec a b =
     (\<Sum>i<length a. (a ! i - mean_spec a) * (b ! i - mean_spec b)) / real (length a)"

definition std_spec :: "vec \<Rightarrow> real" where
  "std_spec a = sqrt (cov_spec a a)"

definition cor_spec :: "vec \<Rightarrow> vec \<Rightarrow> error + real" where
  "cor_spec a b =
     (if std_spec a = 0 \<or> std_spec b = 0 then Inl DegenerateRow
      else Inr (cov_spec a b / (std_spec a * std_spec b)))"

fun reals :: "dvec \<Rightarrow> vec option" where
  "reals [] = Some []"
| "reals (Fin x # v) = map_option ((#) x) (reals v)"
| "reals (NaN # v) = None"
| "reals (Undet # v) = None"

definition stat_spec :: stat where
  "stat_spec =
     \<lparr>stat_cor = (\<lambda>a b. case (reals a, reals b) of
                     (Some a', Some b') \<Rightarrow>
                       if a' = [] then Inr NaN else map_sum id Fin (cor_spec a' b')
                   | _ \<Rightarrow> Inr Undet),
      stat_std = (\<lambda>a. case reals a of
                     Some a' \<Rightarrow> if a' = [] then Inr NaN else Inr (Fin (std_spec a'))
                   | None \<Rightarrow> Inr Undet),
      stat_cov = (\<lambda>a b. case (reals a, reals b) of
                     (Some a', Some b') \<Rightarrow>
                       if a' = [] then Inr NaN else Inr (Fin (cov_spec a' b'))
                   | _ \<Rightarrow> Inr Undet)\<rparr>"

section \<open>The model: construction, score and gradient\<close>

text \<open>
  The constructor of \<^verbatim>\<open>models.hpp\<close>,
  \<^verbatim>\<open>GoertlerModel(mat x, mat y, mat c) : m_x(x), m_y(y), m_c(c) {}\<close>,
  initialises the three matrices and nothing else. Its first argument here is the
  storage of the object before construction, whose other members keep what they held.
\<close>

definition GoertlerModel_ctor :: "GoertlerModel \<Rightarrow> mat \<Rightarrow> mat \<Rightarrow> mat \<Rightarrow> GoertlerModel" where
  "GoertlerModel_ctor this x y c = this\<lparr>m_x := x, m_y := y, m_c := c\<rparr>"

text \<open>\<^verbatim>\<open>dim\<close> converts the \<^verbatim>\<open>int\<close> to \<^verbatim>\<open>std::size_t\<close> (64 bits, sign-extended).\<close>

definition dim :: "GoertlerModel \<Rightarrow> 64 word" where
  "dim M = scast (m_ngenes M)"

text \<open>
  In \<^verbatim>\<open>evaluate\<close> and \<^verbatim>\<open>grad_explicit_inverse\<close> the data of the model and the
  weights meet the computed matrix \<open>xtgxi\<close>; \<open>fin_m\<close> and \<open>map Fin\<close> pass the data to
  the arithmetic of computed values. An \<^verbatim>\<open>int\<close> count converted to \<^verbatim>\<open>double\<close> is
  finite.
\<close>

function evaluate_loop :: "stat \<Rightarrow> GoertlerModel \<Rightarrow> dmat \<Rightarrow> nat \<Rightarrow> dbl \<Rightarrow> error + dbl" where
  "evaluate_loop S M c_hat icell res =
     (if int icell < sint (m_ncells M)
      then (case stat_cor S (row (fin_m (m_c M)) icell) (row c_hat icell) of
              Inl e \<Rightarrow> Inl e
            | Inr r \<Rightarrow> evaluate_loop S M c_hat (icell + 1) (res - r))
      else Inr res)"
  by pat_completeness auto
termination
  by (relation "measure (\<lambda>(S, M, c_hat, icell, res). nat (sint (m_ncells M)) - icell)") auto

declare evaluate_loop.simps [simp del]

definition evaluate :: "stat \<Rightarrow> GoertlerModel \<Rightarrow> vec \<Rightarrow> dmat \<Rightarrow> error + dbl" where
  "evaluate S M g xtgxi =
     (if int (length g) \<noteq> sint (m_ngenes M) then Inl assertion_failure
      else if int (rows xtgxi) \<noteq> sint (m_ncells M) then Inl assertion_failure
      else if int (cols xtgxi) \<noteq> sint (m_ncells M) then Inl assertion_failure
      else let c_hat = estimate_c_direct (fin_m (m_x M)) (fin_m (m_y M)) (map Fin g) xtgxi
           in if int (rows c_hat) \<noteq> sint (m_ncells M) then Inl assertion_failure
              else if int (cols c_hat) \<noteq> sint (m_nsamples M) then Inl assertion_failure
              else (case evaluate_loop S M c_hat 0 (Fin 0) of
                      Inl e \<Rightarrow> Inl e
                    | Inr res \<Rightarrow> Inr (res / Fin (real_of_int (sint (m_ncells M))))))"

text \<open>
  \<^verbatim>\<open>models.hpp\<close> declares \<^verbatim>\<open>eval(vec const & g)\<close>, whose body is not among the
  sources. Where a property speaks of the score of a weight vector \<open>g\<close> alone, it is
  stated below for \<open>evaluate S M g (invxtgx (m_x M) g)\<close>: \<^verbatim>\<open>evaluate\<close> applied to the
  matrix that \<^verbatim>\<open>invxtgx\<close> computes for \<open>g\<close>, which is how \<^verbatim>\<open>grad\<close> obtains the
  \<open>xtgxi\<close> it passes on.
\<close>

text \<open>One pass of the loop over the cell types in \<^verbatim>\<open>grad_explicit_inverse\<close>: the row
  \<open>icell\<close> of \<open>A\<close>. The two divisors that hold a standard deviation are not tested.\<close>

definition A_row :: "stat \<Rightarrow> GoertlerModel \<Rightarrow> dmat \<Rightarrow> nat \<Rightarrow> error + dvec" where
  "A_row S M c_hat icell =
     (case stat_std S (row c_hat icell) of
        Inl e \<Rightarrow> Inl e
      | Inr std_c_hat \<Rightarrow>
     (case stat_std S (row (fin_m (m_c M)) icell) of
        Inl e \<Rightarrow> Inl e
      | Inr std_c \<Rightarrow>
     (let mean_c_hat = mean (row c_hat icell);
          mean_c = mean (row (fin_m (m_c M)) icell)
      in case stat_cov S (row (fin_m (m_c M)) icell) (row c_hat icell) of
           Inl e \<Rightarrow> Inl e
         | Inr cv \<Rightarrow>
             Inr (map (\<lambda>j.
                    (cv / (Fin (real_of_int (sint (m_nsamples M))) * std_c_hat * std_c_hat)
                       * (coeff c_hat icell j - mean_c_hat)
                     - (Fin (coeff (m_c M) icell j) - mean_c)
                         / Fin (real_of_int (sint (m_nsamples M))))
                    / (std_c * std_c_hat))
                  [0..<cols c_hat]))))"

function A_loop :: "stat \<Rightarrow> GoertlerModel \<Rightarrow> dmat \<Rightarrow> nat \<Rightarrow> dmat \<Rightarrow> error + dmat" where
  "A_loop S M c_hat icell A =
     (if int icell < sint (m_ncells M)
      then (case A_row S M c_hat icell of
              Inl e \<Rightarrow> Inl e
            | Inr v \<Rightarrow> A_loop S M c_hat (icell + 1) (set_row A icell v))
      else Inr A)"
  by pat_completeness auto
termination
  by (relation "measure (\<lambda>(S, M, c_hat, icell, A). nat (sint (m_ncells M)) - icell)") auto

declare A_loop.simps [simp del]

text \<open>
  \<^verbatim>\<open>grad_explicit_inverse\<close> writes the gradient into \<open>gr\<close>; the model returns the
  new \<open>gr\<close>. The resized \<open>gr\<close> and the fresh matrix \<open>A\<close> are uninitialised in the
  source and start from zeros here; both are overwritten before they are read.
\<close>

definition grad_explicit_inverse ::
  "stat \<Rightarrow> GoertlerModel \<Rightarrow> dvec \<Rightarrow> vec \<Rightarrow> dmat \<Rightarrow> error + dvec" where
  "grad_explicit_inverse S M gr g xtgxi =
     (if int (length g) \<noteq> sint (m_ngenes M) then Inl assertion_failure
      else let gr1 = (if int (length gr) \<noteq> sint (m_ngenes M)
                      then replicate (nat (sint (m_ngenes M))) (Fin 0) else gr);
               c_hat = estimate_c_direct (fin_m (m_x M)) (fin_m (m_y M)) (map Fin g) xtgxi
           in if int (rows c_hat) \<noteq> sint (m_ncells M) then Inl assertion_failure
              else if int (cols c_hat) \<noteq> sint (m_nsamples M) then Inl assertion_failure
              else (case A_loop S M c_hat 0
                           \<lparr>rows = nat (sint (m_ncells M)), cols = nat (sint (m_nsamples M)),
                            coeff = (\<lambda>i j. Fin 0)\<rparr> of
                      Inl e \<Rightarrow> Inl e
                    | Inr A \<Rightarrow>
                        (let tmp =
                           mat_mul (mat_mul (mat_mul
                             (mat_sub (fin_m (m_y M))
                                (mat_mul (mat_mul (mat_mul (mat_mul (fin_m (m_x M)) xtgxi)
                                   (transpose_m (fin_m (m_x M)))) (asDiagonal (map Fin g)))
                                   (fin_m (m_y M))))
                             (transpose_m A)) xtgxi) (transpose_m (fin_m (m_x M)));
                             gr2 = diagonal tmp
                         in Inr (clampPos gr2))))"

definition grad :: "stat \<Rightarrow> GoertlerModel \<Rightarrow> dvec \<Rightarrow> vec \<Rightarrow> error + dvec" where
  "grad S M gr param =
     (let xtgxi = invxtgx (m_x M) param in grad_explicit_inverse S M gr param xtgxi)"

section \<open>Vectors held by reference\<close>

text \<open>
  For the effect of \<^verbatim>\<open>subspace_constraint\<close> on its argument the vectors live in a
  store, a list of vector objects; a reference is an index into it. \<^verbatim>\<open>clampNeg\<close>
  writes through the reference \<open>x\<close>. \<^verbatim>\<open>subspace_constraint\<close> reads its argument
  through the reference \<open>v\<close>, copy-constructs the local \<open>res\<close> in a new cell, clamps
  that cell, and returns its value together with the store it leaves.
\<close>

type_synonym store = "vec list"

function clampNeg_ref_loop :: "nat \<Rightarrow> nat \<Rightarrow> store \<Rightarrow> store" where
  "clampNeg_ref_loop x i s =
     (if i < length (s ! x)
      then clampNeg_ref_loop x (i + 1) (s[x := (s ! x)[i := max (s ! x ! i) 0]])
      else s)"
  by pat_completeness auto
termination
proof (relation "measure (\<lambda>(x, i, s). length (s ! x) - i)")
  show "wf (measure (\<lambda>(x, i, s). length (s ! x) - i))"
    by simp
next
  fix x i :: nat and s :: store
  assume "i < length (s ! x)"
  moreover have "length (s[x := (s ! x)[i := max (s ! x ! i) 0]] ! x) = length (s ! x)"
    by (cases "x < length s") (simp_all add: list_update_beyond)
  ultimately show "((x, i + 1, s[x := (s ! x)[i := max (s ! x ! i) 0]]), x, i, s)
                     \<in> measure (\<lambda>(x, i, s). length (s ! x) - i)"
    by simp
qed

declare clampNeg_ref_loop.simps [simp del]

definition clampNeg_ref :: "nat \<Rightarrow> store \<Rightarrow> store" where
  "clampNeg_ref x s = clampNeg_ref_loop x 0 s"

definition subspace_constraint_ref ::
  "GoertlerModel \<Rightarrow> nat \<Rightarrow> store \<Rightarrow> error + vec \<times> store" where
  "subspace_constraint_ref M v s =
     (if m_subspfn M = POSITIVE
      then (let res = length s;
                s1 = s @ [s ! v];
                s2 = clampNeg_ref res s1
            in Inr (s2 ! res, s2))
      else Inl (runtime_error ''unimplemented subspace constraint.''))"

section \<open>Notions used to state the properties\<close>

text \<open>\<open>B\<close> is the inverse of the square matrix \<open>A\<close>, from both sides.\<close>

definition inverse_of :: "mat \<Rightarrow> mat \<Rightarrow> bool" where
  "inverse_of A B \<longleftrightarrow>
     cols A = rows A \<and> rows B = rows A \<and> cols B = rows A \<and>
     (\<forall>i<rows A. \<forall>j<rows A.
        (\<Sum>m<rows A. coeff A i m * coeff B m j) = (if i = j then 1 else 0) \<and>
        (\<Sum>m<rows A. coeff B i m * coeff A m j) = (if i = j then 1 else 0))"

text \<open>\<open>p\<close> lists a permutation of the indices below \<open>k\<close>.\<close>

definition is_perm :: "nat \<Rightarrow> nat list \<Rightarrow> bool" where
  "is_perm k p \<longleftrightarrow> length p = k \<and> distinct p \<and> (\<forall>i\<in>set p. i < k)"

definition permute_rows :: "nat list \<Rightarrow> mat \<Rightarrow> mat" where
  "permute_rows p A = A\<lparr>coeff := (\<lambda>i j. coeff A (p ! i) j)\<rparr>"

definition permute_cols :: "nat list \<Rightarrow> mat \<Rightarrow> mat" where
  "permute_cols p A = A\<lparr>coeff := (\<lambda>i j. coeff A i (p ! j))\<rparr>"

text \<open>The weighted Gram matrix \<open>X\<^sup>T diag(g) X\<close>, as \<^verbatim>\<open>invxtgx\<close> forms it.\<close>

definition xtgx :: "mat \<Rightarrow> vec \<Rightarrow> mat" where
  "xtgx x g = mat_mul (mat_mul (transpose_m x) (asDiagonal g)) x"

text \<open>
  The same matrix and the estimate as the spec writes them, coefficient by coefficient:
  \<open>(X\<^sup>T diag(g) X)(i, j) = \<Sum>l. X(l, i) g(l) X(l, j)\<close> and
  \<open>(xtgxi X\<^sup>T diag(g) Y)(i, j) = \<Sum>m. \<Sum>l. xtgxi(i, m) X(l, m) g(l) Y(l, j)\<close>, with \<open>l\<close>
  over the genes and \<open>m\<close> over the cell types.
\<close>

definition weighted_gram :: "mat \<Rightarrow> vec \<Rightarrow> mat" where
  "weighted_gram x g =
     \<lparr>rows = cols x, cols = cols x,
      coeff = (\<lambda>i j. \<Sum>l<rows x. coeff x l i * g ! l * coeff x l j)\<rparr>"

definition c_hat_spec :: "mat \<Rightarrow> mat \<Rightarrow> vec \<Rightarrow> mat \<Rightarrow> mat" where
  "c_hat_spec x y g xtgxi =
     \<lparr>rows = cols x, cols = cols y,
      coeff = (\<lambda>i j. \<Sum>m<cols x. \<Sum>l<rows x.
                 coeff xtgxi i m * coeff x l m * g ! l * coeff y l j)\<rparr>"

text \<open>
  The two triangular solves and the regression solve in the reals. They are what
  \<open>llt_solve\<close> and \<open>invxtgx\<close> compute when no diagonal coefficient of the factor is
  zero (\<open>llt_solve_finite\<close> below).
\<close>

definition llt_solve_exact :: "mat \<Rightarrow> mat \<Rightarrow> mat" where
  "llt_solve_exact A B =
     (let L = fst (llt_unblocked 0 A) in solve_upper L (rows L) (solve_lower L 0 B))"

definition invxtgx_exact :: "mat \<Rightarrow> vec \<Rightarrow> mat" where
  "invxtgx_exact x g = llt_solve_exact (xtgx x g) (Identity (cols x) (cols x))"

text \<open>No diagonal coefficient of the matrix that the factorisation of \<open>A\<close> leaves is
  zero.\<close>

definition pivots_nonzero :: "mat \<Rightarrow> bool" where
  "pivots_nonzero A \<longleftrightarrow>
     (\<forall>i<rows A. coeff (fst (llt_unblocked 0 A)) i i \<noteq> 0)"

text \<open>The factorisation of \<open>A\<close> runs to the end: Eigen's \<^verbatim>\<open>info() == Success\<close>.\<close>

definition llt_succeeds :: "mat \<Rightarrow> bool" where
  "llt_succeeds A \<longleftrightarrow> snd (llt_unblocked 0 A) = - 1"

text \<open>The statistics helpers return a number on every input.\<close>

definition stat_returns :: "stat \<Rightarrow> bool" where
  "stat_returns S \<longleftrightarrow>
     (\<forall>a. \<exists>r. stat_std S a = Inr r) \<and> (\<forall>a b. \<exists>r. stat_cov S a b = Inr r)"

definition cor_returns :: "stat \<Rightarrow> bool" where
  "cor_returns S \<longleftrightarrow> (\<forall>a b. \<exists>r. stat_cor S a b = Inr r)"





text \<open>The dimensions of the model and of the weight vector fit together: \<open>X\<close> is
  genes by cell types, \<open>Y\<close> genes by samples, \<open>C\<close> cell types by samples, \<open>g\<close> has one
  weight for each gene, and the three counts of the model are these dimensions.\<close>

definition consistent :: "GoertlerModel \<Rightarrow> vec \<Rightarrow> bool" where
  "consistent M g \<longleftrightarrow>
     sint (m_ngenes M) = int (length g) \<and> rows (m_x M) = length g \<and> rows (m_y M) = length g \<and>
     sint (m_ncells M) = int (cols (m_x M)) \<and> rows (m_c M) = cols (m_x M) \<and>
     sint (m_nsamples M) = int (cols (m_y M)) \<and> cols (m_c M) = cols (m_y M)"

text \<open>\<open>A\<close> is square and symmetric.\<close>

definition symmetric_m :: "mat \<Rightarrow> bool" where
  "symmetric_m A \<longleftrightarrow>
     cols A = rows A \<and> (\<forall>i<rows A. \<forall>j<rows A. coeff A i j = coeff A j i)"

text \<open>\<open>A\<close> is symmetric positive definite: \<open>v\<^sup>T A v > 0\<close> for every \<open>v\<close> that is not zero
  on the indices of \<open>A\<close>.\<close>

definition quad_form :: "mat \<Rightarrow> (nat \<Rightarrow> real) \<Rightarrow> real" where
  "quad_form A v = (\<Sum>i<rows A. \<Sum>j<rows A. v i * coeff A i j * v j)"

definition posdef :: "mat \<Rightarrow> bool" where
  "posdef A \<longleftrightarrow> symmetric_m A \<and> (\<forall>v. (\<exists>i<rows A. v i \<noteq> 0) \<longrightarrow> 0 < quad_form A v)"

text \<open>
  The state of the factorisation of \<open>A\<close> before column \<open>k\<close>: the columns below \<open>k\<close>
  of the working copy \<open>m\<close> hold the factor, with positive diagonal, and reproduce the
  lower triangle of \<open>A\<close> there; everything else still is \<open>A\<close>.
\<close>

definition chol_inv :: "mat \<Rightarrow> nat \<Rightarrow> mat \<Rightarrow> bool" where
  "chol_inv A k m \<longleftrightarrow>
     k \<le> rows A \<and> rows m = rows A \<and> cols m = cols A \<and>
     (\<forall>i j. k \<le> j \<or> i < j \<or> rows A \<le> i \<longrightarrow> coeff m i j = coeff A i j) \<and>
     (\<forall>j<k. 0 < coeff m j j) \<and>
     (\<forall>j<k. \<forall>i. j \<le> i \<and> i < rows A \<longrightarrow>
        coeff A i j = (\<Sum>l\<le>j. coeff m i l * coeff m j l))"

text \<open>The model with the cell types relabelled by \<open>p\<close>: the columns of \<open>X\<close> and the
  rows of \<open>C\<close> are permuted alike.\<close>

definition relabel :: "nat list \<Rightarrow> GoertlerModel \<Rightarrow> GoertlerModel" where
  "relabel p M = M\<lparr>m_x := permute_cols p (m_x M), m_c := permute_rows p (m_c M)\<rparr>"

section \<open>Concrete data\<close>

text \<open>A matrix given by the list of its rows.\<close>

definition of_rows :: "real list list \<Rightarrow> mat" where
  "of_rows rs = \<lparr>rows = length rs, cols = length (hd rs), coeff = (\<lambda>i j. rs ! i ! j)\<rparr>"

text \<open>A model with two genes, one cell type and four samples.\<close>

definition ex_x :: mat where
  "ex_x = of_rows [[1], [1]]"

definition ex_y :: mat where
  "ex_y = of_rows [[- 3, - 1, 1, - 1], [5, - 1, 1, - 1]]"

definition ex_c :: mat where
  "ex_c = of_rows [[1, 1, - 1, - 1]]"

definition ex_model :: GoertlerModel where
  "ex_model =
     \<lparr>m_ngenes = 2, m_ncells = 1, m_nsamples = 4,
      m_x = ex_x, m_y = ex_y, m_c = ex_c,
      m_threshfn = SOFTMAX, m_normfn = NORM2, m_subspfn = POSITIVE\<rparr>"



text \<open>
  A model with two genes, two cell types and three samples, in which \<open>Y = X C\<close>, the
  inverse of its Gram matrix \<open>[[1, 1], [1, 5]]\<close> for the weights \<open>[1, 4]\<close>, and the same
  model with the rows of \<open>X\<close> (the genes) and the rows of \<open>C\<close> exchanged.
\<close>

definition ex2_x :: mat where
  "ex2_x = of_rows [[1, 1], [0, 1]]"

definition ex2_y :: mat where
  "ex2_y = of_rows [[2, 0, - 2], [1, 1, - 2]]"

definition ex2_c :: mat where
  "ex2_c = of_rows [[1, - 1, 0], [1, 1, - 2]]"

definition ex2_model :: GoertlerModel where
  "ex2_model =
     \<lparr>m_ngenes = 2, m_ncells = 2, m_nsamples = 3,
      m_x = ex2_x, m_y = ex2_y, m_c = ex2_c,
      m_threshfn = SOFTMAX, m_normfn = NORM2, m_subspfn = POSITIVE\<rparr>"

definition ex2_xtgxi :: mat where
  "ex2_xtgxi = of_rows [[5 / 4, - (1 / 4)], [- (1 / 4), 1 / 4]]"

definition ex2_rows_swapped :: GoertlerModel where
  "ex2_rows_swapped =
     ex2_model\<lparr>m_x := permute_rows [Suc 0, 0] ex2_x, m_c := permute_rows [Suc 0, 0] ex2_c\<rparr>"

section \<open>The loops in closed form\<close>

lemma length_softmax_loop:
  "length (softmax_loop v softfactor i res) = length res"
  by (induction v softfactor i res rule: softmax_loop.induct)
     (subst softmax_loop.simps, simp)

lemma softmax_loop_nth:
  assumes "length res = length v" and "k < length v"
  shows "softmax_loop v softfactor i res ! k =
           (if i \<le> k then real_of_int (sgn_cpp (v ! k)) * max (\<bar>v ! k\<bar> - softfactor) 0
            else res ! k)"
  using assms
proof (induction v softfactor i res rule: softmax_loop.induct)
  case (1 v softfactor i res)
  show ?case
  proof (cases "i < length v")
    case True
    have "softmax_loop v softfactor i res ! k =
            softmax_loop v softfactor (i + 1)
              (res[i := real_of_int (sgn_cpp (v ! i)) * max (\<bar>v ! i\<bar> - softfactor) 0]) ! k"
      using True by (subst softmax_loop.simps) simp
    also have "\<dots> = (if i + 1 \<le> k
                      then real_of_int (sgn_cpp (v ! k)) * max (\<bar>v ! k\<bar> - softfactor) 0
                      else (res[i := real_of_int (sgn_cpp (v ! i)) *
                                    max (\<bar>v ! i\<bar> - softfactor) 0]) ! k)"
      using "1.IH" [OF True] "1.prems" by simp
    finally show ?thesis
      using True "1.prems" by (cases "i = k") auto
  next
    case False
    then show ?thesis
      using "1.prems" by (subst softmax_loop.simps) simp
  qed
qed

lemma softmax_loop_any_init:
  assumes "length res = length v"
  shows "softmax_loop v softfactor 0 res =
           map (\<lambda>x. real_of_int (sgn_cpp x) * max (\<bar>x\<bar> - softfactor) 0) v"
  using assms
  by (intro nth_equalityI) (simp_all add: length_softmax_loop softmax_loop_nth)

lemma softmax_eq_map:
  "softmax v softfactor = map (\<lambda>x. real_of_int (sgn_cpp x) * max (\<bar>x\<bar> - softfactor) 0) v"
  unfolding softmax_def by (rule softmax_loop_any_init) simp

lemma sgn_cpp_eq_sgn: "real_of_int (sgn_cpp x) = sgn x"
  by (simp add: sgn_cpp_def sgn_real_def)

lemma length_clampPos_loop: "length (clampPos_loop i x) = length x"
  by (induction i x rule: clampPos_loop.induct) (subst clampPos_loop.simps, simp)

lemma clampPos_loop_nth:
  "k < length x \<Longrightarrow> clampPos_loop i x ! k = (if i \<le> k then std_min (x ! k) (Fin 0) else x ! k)"
proof (induction i x rule: clampPos_loop.induct)
  case (1 i x)
  show ?case
  proof (cases "i < length x")
    case True
    have "clampPos_loop i x ! k = clampPos_loop (i + 1) (x[i := std_min (x ! i) (Fin 0)]) ! k"
      using True by (subst clampPos_loop.simps) simp
    also have "\<dots> = (if i + 1 \<le> k then std_min ((x[i := std_min (x ! i) (Fin 0)]) ! k) (Fin 0)
                      else (x[i := std_min (x ! i) (Fin 0)]) ! k)"
      using "1.IH" [OF True] "1.prems" by simp
    finally show ?thesis
      using True "1.prems" by (cases "i = k") auto
  next
    case False
    then show ?thesis
      using "1.prems" by (subst clampPos_loop.simps) simp
  qed
qed

lemma clampPos_eq_map: "clampPos x = map (\<lambda>a. std_min a (Fin 0)) x"
  unfolding clampPos_def
  by (intro nth_equalityI) (simp_all add: length_clampPos_loop clampPos_loop_nth)

lemma length_clampNeg_loop: "length (clampNeg_loop i x) = length x"
  by (induction i x rule: clampNeg_loop.induct) (subst clampNeg_loop.simps, simp)

lemma clampNeg_loop_nth:
  "k < length x \<Longrightarrow> clampNeg_loop i x ! k = (if i \<le> k then max (x ! k) 0 else x ! k)"
proof (induction i x rule: clampNeg_loop.induct)
  case (1 i x)
  show ?case
  proof (cases "i < length x")
    case True
    have "clampNeg_loop i x ! k = clampNeg_loop (i + 1) (x[i := max (x ! i) 0]) ! k"
      using True by (subst clampNeg_loop.simps) simp
    also have "\<dots> = (if i + 1 \<le> k then max ((x[i := max (x ! i) 0]) ! k) 0
                      else (x[i := max (x ! i) 0]) ! k)"
      using "1.IH" [OF True] "1.prems" by simp
    finally show ?thesis
      using True "1.prems" by (cases "i = k") auto
  next
    case False
    then show ?thesis
      using "1.prems" by (subst clampNeg_loop.simps) simp
  qed
qed

lemma clampNeg_eq_map: "clampNeg x = map (\<lambda>a. max a 0) x"
  unfolding clampNeg_def
  by (intro nth_equalityI) (simp_all add: length_clampNeg_loop clampNeg_loop_nth)

section \<open>The threshold operator\<close>

text \<open>
  C3. With the variant \<open>SOFTMAX\<close>, \<open>threshold v \<lambda>\<close> returns a vector as long as \<open>v\<close>
  whose entry \<open>i\<close> is \<open>sign(v\<^sub>i) * max(|v\<^sub>i| - \<lambda>, 0)\<close>; every entry with
  \<open>|v\<^sub>i| \<le> \<lambda>\<close> becomes zero, and \<open>threshold v 0\<close> is \<open>v\<close>.
\<close>

theorem threshold_softmax:
  assumes "m_threshfn M = SOFTMAX"
  shows "\<exists>w. threshold M v lam = Inr w \<and> length w = length v \<and>
           (\<forall>i<length v. w ! i = sgn (v ! i) * max (\<bar>v ! i\<bar> - lam) 0) \<and>
           (\<forall>i<length v. \<bar>v ! i\<bar> \<le> lam \<longrightarrow> w ! i = 0) \<and>
           threshold M v 0 = Inr v"
proof -
  have "map (\<lambda>x. real_of_int (sgn_cpp x) * max (\<bar>x\<bar> - 0) 0) v = v"
    by (rule map_idI) (simp add: sgn_cpp_def)
  then have "threshold M v 0 = Inr v"
    using assms by (simp add: threshold_def softmax_eq_map)
  moreover have "threshold M v lam = Inr (map (\<lambda>x. sgn x * max (\<bar>x\<bar> - lam) 0) v)"
    using assms by (simp add: threshold_def softmax_eq_map sgn_cpp_eq_sgn)
  ultimately show ?thesis
    by simp
qed

theorem threshold_softmax_witness:
  "threshold ex_model [3, - 1, - 5] 2 = Inr [1, 0, - 3] \<and>
   threshold ex_model [3, - 1, - 5] 0 = Inr [3, - 1, - 5]"
proof -
  have m: "m_threshfn ex_model = SOFTMAX"
    by (simp add: ex_model_def)
  from threshold_softmax [OF m, of "[3, - 1, - 5]" 2]
  obtain w where w: "threshold ex_model [3, - 1, - 5] 2 = Inr w" "length w = 3"
      "\<forall>i<3. w ! i = sgn ([3, - 1, - 5] ! i) * max (\<bar>[3, - 1, - 5] ! i\<bar> - 2) 0"
      "threshold ex_model [3, - 1, - 5] 0 = Inr [3, - 1, - 5]"
    by auto
  have "w ! 0 = 1" "w ! Suc 0 = 0" "w ! Suc (Suc 0) = - 3"
    using w(3) by (simp_all add: All_less_Suc numeral_3_eq_3)
  then have "w = [1, 0, - 3]"
    using w(2) by (intro nth_equalityI) (auto simp: less_Suc_eq numeral_3_eq_3)
  then show ?thesis
    using w by simp
qed

section \<open>The subspace constraint\<close>

text \<open>
  C7. With the variant \<open>POSITIVE\<close>, \<open>subspace_constraint v\<close> returns a vector as long
  as \<open>v\<close> without negative entries: a negative entry becomes zero, every other entry is
  kept, and a vector without negative entries is returned unchanged.
\<close>

theorem subspace_constraint_positive:
  assumes "m_subspfn M = POSITIVE"
  shows "\<exists>w. subspace_constraint M v = Inr w \<and> length w = length v \<and>
           (\<forall>x\<in>set w. 0 \<le> x) \<and>
           (\<forall>i<length v. w ! i = (if v ! i < 0 then 0 else v ! i)) \<and>
           ((\<forall>x\<in>set v. 0 \<le> x) \<longrightarrow> w = v)"
proof (intro exI conjI)
  show "subspace_constraint M v = Inr (map (\<lambda>a. max a 0) v)"
    using assms by (simp add: subspace_constraint_def clampNeg_eq_map)
  show "length (map (\<lambda>a. max a 0) v) = length v"
    by simp
  show "\<forall>x\<in>set (map (\<lambda>a. max a 0) v). 0 \<le> x"
    by simp
  show "\<forall>i<length v. map (\<lambda>a. max a 0) v ! i = (if v ! i < 0 then 0 else v ! i)"
    by (simp add: max_def)
  show "(\<forall>x\<in>set v. 0 \<le> x) \<longrightarrow> map (\<lambda>a. max a 0) v = v"
  proof
    assume "\<forall>x\<in>set v. 0 \<le> x"
    then show "map (\<lambda>a. max a 0) v = v"
      by (intro map_idI) (auto simp: max_def)
  qed
qed

theorem subspace_constraint_positive_witness:
  "subspace_constraint ex_model [2, - 1, 0] = Inr [2, 0, 0] \<and>
   subspace_constraint ex_model [2, 5] = Inr [2, 5]"
proof -
  have m: "m_subspfn ex_model = POSITIVE"
    by (simp add: ex_model_def)
  obtain w where w: "subspace_constraint ex_model [2, - 1, 0] = Inr w"
      "length w = length [2, - 1, 0 :: real]"
      "\<forall>i<length [2, - 1, 0 :: real].
         w ! i = (if [2, - 1, 0] ! i < (0::real) then 0 else [2, - 1, 0] ! i)"
    using subspace_constraint_positive [OF m, of "[2, - 1, 0]"] by blast
  have "w ! 0 = 2" "w ! Suc 0 = 0" "w ! Suc (Suc 0) = 0"
    using w(3) by (simp_all add: All_less_Suc)
  then have "w = [2, 0, 0]"
    using w(2) by (intro nth_equalityI) (auto simp: less_Suc_eq)
  moreover obtain u where u: "subspace_constraint ex_model [2, 5] = Inr u"
      "(\<forall>x\<in>set [2, 5 :: real]. 0 \<le> x) \<longrightarrow> u = [2, 5]"
    using subspace_constraint_positive [OF m, of "[2, 5]"] by blast
  have "u = [2, 5]"
    using u(2) by simp
  ultimately show ?thesis
    using w(1) u(1) by simp
qed

section \<open>Unsupported variants\<close>

text \<open>
  C8. Each of the three operators throws its \<open>unimplemented ...\<close> runtime error, for
  every input vector, when the configured variant is none of those it supports
  (\<open>SOFTMAX\<close>; \<open>IDENTITY\<close> or \<open>NORM2\<close>; \<open>POSITIVE\<close>).
\<close>

theorem unimplemented_variants:
  "(m_threshfn M \<noteq> SOFTMAX \<longrightarrow>
      threshold M v lam = Inl (runtime_error ''unimplemented threshold function.'')) \<and>
   (m_normfn M \<noteq> IDENTITY \<and> m_normfn M \<noteq> NORM2 \<longrightarrow>
      norm_constraint M v = Inl (runtime_error ''unimplemented norm function. '')) \<and>
   (m_subspfn M \<noteq> POSITIVE \<longrightarrow>
      subspace_constraint M v = Inl (runtime_error ''unimplemented subspace constraint.''))"
  by (simp add: threshold_def norm_constraint_def subspace_constraint_def)

theorem unimplemented_variants_witness:
  "threshold (ex_model\<lparr>m_threshfn := ThresholdFunctions_other 1\<rparr>) [1, - 2] 1 =
     Inl (runtime_error ''unimplemented threshold function.'') \<and>
   norm_constraint (ex_model\<lparr>m_normfn := NormFunctions_other 2\<rparr>) [1, - 2] =
     Inl (runtime_error ''unimplemented norm function. '') \<and>
   subspace_constraint (ex_model\<lparr>m_subspfn := SubspaceFunctions_other 1\<rparr>) [1, - 2] =
     Inl (runtime_error ''unimplemented subspace constraint.'')"
  using unimplemented_variants [of "ex_model\<lparr>m_threshfn := ThresholdFunctions_other 1\<rparr>" "[1, - 2]" 1]
    unimplemented_variants [of "ex_model\<lparr>m_normfn := NormFunctions_other 2\<rparr>" "[1, - 2]"]
    unimplemented_variants [of "ex_model\<lparr>m_subspfn := SubspaceFunctions_other 1\<rparr>" "[1, - 2]"]
  by simp

section \<open>The accessor \<open>dim\<close>\<close>

text \<open>
  C9. The claim is that \<open>dim\<close> of a constructed model is the number of rows of \<open>X\<close>.
  The constructor does not write \<open>m_ngenes\<close>: \<open>dim\<close> returns what the storage of the
  object held before construction, whatever \<open>X\<close> is, and for every \<open>X\<close> there is such
  a content for which the result is not the number of rows of \<open>X\<close>.
\<close>

theorem dim_not_set_by_constructor:
  "dim (GoertlerModel_ctor this x y c) = scast (m_ngenes this) \<and>
   (\<exists>this'. dim (GoertlerModel_ctor this' x y c) \<noteq> word_of_nat (rows x))"
proof -
  have a: "dim (GoertlerModel_ctor t x y c) = scast (m_ngenes t)" for t
    by (simp add: dim_def GoertlerModel_ctor_def)
  have "\<exists>this'. dim (GoertlerModel_ctor this' x y c) \<noteq> word_of_nat (rows x)"
  proof (cases "(word_of_nat (rows x) :: 64 word) = 0")
    case True
    have "dim (GoertlerModel_ctor (this\<lparr>m_ngenes := 1\<rparr>) x y c) = 1"
      by (simp add: a)
    with True show ?thesis
      by (intro exI [of _ "this\<lparr>m_ngenes := 1\<rparr>"]) simp
  next
    case False
    have "dim (GoertlerModel_ctor (this\<lparr>m_ngenes := 0\<rparr>) x y c) = 0"
      by (simp add: a)
    with False show ?thesis
      by (intro exI [of _ "this\<lparr>m_ngenes := 0\<rparr>"]) simp
  qed
  then show ?thesis
    using a by simp
qed

section \<open>The argument of the subspace constraint\<close>

lemma clampNeg_ref_loop_eq:
  "x < length s \<Longrightarrow> clampNeg_ref_loop x i s = s[x := clampNeg_loop i (s ! x)]"
proof (induction x i s rule: clampNeg_ref_loop.induct)
  case (1 x i s)
  show ?case
  proof (cases "i < length (s ! x)")
    case True
    let ?s' = "s[x := (s ! x)[i := max (s ! x ! i) 0]]"
    have "clampNeg_ref_loop x i s = clampNeg_ref_loop x (i + 1) ?s'"
      using True by (subst clampNeg_ref_loop.simps) simp
    also have "\<dots> = ?s'[x := clampNeg_loop (i + 1) (?s' ! x)]"
      using "1.IH" [OF True] "1.prems" by simp
    also have "\<dots> = s[x := clampNeg_loop (i + 1) ((s ! x)[i := max (s ! x ! i) 0])]"
      using "1.prems" by simp
    also have "clampNeg_loop (i + 1) ((s ! x)[i := max (s ! x ! i) 0]) = clampNeg_loop i (s ! x)"
      using True by (subst clampNeg_loop.simps [of i]) simp
    finally show ?thesis .
  next
    case False
    have "clampNeg_ref_loop x i s = s"
      using False by (subst clampNeg_ref_loop.simps) simp
    moreover have "clampNeg_loop i (s ! x) = s ! x"
      using False by (subst clampNeg_loop.simps) simp
    ultimately show ?thesis
      by simp
  qed
qed

lemma clampNeg_ref_eq: "x < length s \<Longrightarrow> clampNeg_ref x s = s[x := clampNeg (s ! x)]"
  by (simp add: clampNeg_ref_def clampNeg_def clampNeg_ref_loop_eq)

text \<open>
  C10. \<open>subspace_constraint\<close> with the variant \<open>POSITIVE\<close> leaves its argument as it
  was: the clamp works on the copy \<open>res\<close>, so after the call the vector behind the
  reference \<open>v\<close>, like every vector that existed before the call, holds its former
  entries, and the value returned is the clamped copy.
\<close>

theorem subspace_constraint_keeps_argument:
  assumes "v < length s" and "m_subspfn M = POSITIVE"
  shows "\<exists>w s'. subspace_constraint_ref M v s = Inr (w, s') \<and>
           s' ! v = s ! v \<and> (\<forall>a<length s. s' ! a = s ! a) \<and>
           subspace_constraint M (s ! v) = Inr w"
proof (intro exI conjI)
  have "clampNeg_ref (length s) (s @ [s ! v]) = s @ [clampNeg (s ! v)]"
    by (simp add: clampNeg_ref_eq)
  then show "subspace_constraint_ref M v s = Inr (clampNeg (s ! v), s @ [clampNeg (s ! v)])"
    using assms(2) by (simp add: subspace_constraint_ref_def)
  show "(s @ [clampNeg (s ! v)]) ! v = s ! v"
    using assms(1) by (simp add: nth_append)
  show "\<forall>a<length s. (s @ [clampNeg (s ! v)]) ! a = s ! a"
    by (simp add: nth_append)
  show "subspace_constraint M (s ! v) = Inr (clampNeg (s ! v))"
    using assms(2) by (simp add: subspace_constraint_def)
qed

theorem subspace_constraint_keeps_argument_witness:
  "subspace_constraint_ref ex_model 1 [[1], [2, - 1, 0]] =
     Inr ([2, 0, 0], [[1], [2, - 1, 0], [2, 0, 0]])"
proof -
  have m: "m_subspfn ex_model = POSITIVE"
    by (simp add: ex_model_def)
  have l: "1 < length [[1], [2, - 1, 0 :: real]]"
    by simp
  obtain w s' where *: "subspace_constraint_ref ex_model 1 [[1], [2, - 1, 0]] = Inr (w, s')"
      "\<forall>a<length [[1], [2, - 1, 0 :: real]]. s' ! a = [[1], [2, - 1, 0]] ! a"
      "subspace_constraint ex_model ([[1], [2, - 1, 0]] ! 1) = Inr w"
    using subspace_constraint_keeps_argument [OF l m] by blast
  have w: "w = [2, 0, 0]"
    using *(3) by (simp add: subspace_constraint_def ex_model_def clampNeg_eq_map)
  have "s' = [[1], [2, - 1, 0], [2, 0, 0]]"
    using *(1) m by (auto simp: subspace_constraint_ref_def clampNeg_ref_eq clampNeg_eq_map)
  then show ?thesis
    using *(1) w by simp
qed

section \<open>The norm constraint\<close>

lemma sum_list_squares_pos:
  fixes v :: vec
  assumes "\<exists>x\<in>set v. x \<noteq> 0"
  shows "0 < (\<Sum>x\<leftarrow>v. x * x)"
  using assms
proof (induction v)
  case Nil
  then show ?case by simp
next
  case (Cons a v)
  have nn: "0 \<le> (\<Sum>x\<leftarrow>v. x * x)"
    by (rule sum_list_nonneg) auto
  show ?case
  proof (cases "a = 0")
    case True
    with Cons show ?thesis by simp
  next
    case False
    then have "0 < a * a"
      by (auto simp: zero_less_mult_iff)
    with nn show ?thesis by simp
  qed
qed

lemma norm_v_scaled:
  fixes v :: vec
  assumes "\<exists>x\<in>set v. x \<noteq> 0"
  shows "norm_v (map (\<lambda>x. x / norm_v v) v) = 1"
proof -
  let ?S = "\<Sum>x\<leftarrow>v. x * x"
  have S: "0 < ?S"
    using assms by (rule sum_list_squares_pos)
  have "(\<Sum>x\<leftarrow>map (\<lambda>x. x / sqrt ?S) v. x * x) = (\<Sum>x\<leftarrow>v. (x * x) * (1 / ?S))"
    using S by (simp add: comp_def field_simps)
  also have "\<dots> = ?S * (1 / ?S)"
    by (simp only: sum_list_mult_const)
  also have "\<dots> = 1"
    using S by simp
  finally show ?thesis
    by (simp add: norm_v_def)
qed

lemma norm_v_3_4: "norm_v [3, 4] = 5"
proof -
  have "sqrt 25 = (5::real)"
    by (rule real_sqrt_unique) simp_all
  then show ?thesis
    by (simp add: norm_v_def)
qed

text \<open>
  C6, as amended. With the variant \<open>NORM2\<close>, \<open>norm_constraint\<close> returns a vector for
  every input and raises no error, the all-zero input included; for an input with a
  nonzero entry the result is \<open>v\<close> divided by its Euclidean norm, and has Euclidean
  norm \<open>1\<close>.
\<close>

theorem norm_constraint_norm2:
  assumes "m_normfn M = NORM2"
  shows "\<exists>w. norm_constraint M v = Inr w \<and> length w = length v \<and>
           ((\<exists>x\<in>set v. x \<noteq> 0) \<longrightarrow> w = map (\<lambda>x. x / norm_v v) v \<and> norm_v w = 1)"
proof (intro exI conjI impI)
  show "norm_constraint M v = Inr (map (\<lambda>x. x / norm_v v) v)"
    using assms by (simp add: norm_constraint_def)
  show "length (map (\<lambda>x. x / norm_v v) v) = length v"
    by simp
  show "map (\<lambda>x. x / norm_v v) v = map (\<lambda>x. x / norm_v v) v" ..
  show "norm_v (map (\<lambda>x. x / norm_v v) v) = 1" if "\<exists>x\<in>set v. x \<noteq> 0"
    using that by (rule norm_v_scaled)
qed

theorem norm_constraint_norm2_witness:
  "norm_constraint ex_model [3, 4] = Inr [3 / 5, 4 / 5] \<and> norm_v [3 / 5, 4 / 5] = 1"
proof -
  have m: "m_normfn ex_model = NORM2"
    by (simp add: ex_model_def)
  obtain w where w: "norm_constraint ex_model [3, 4] = Inr w"
      "(\<exists>x\<in>set [3, 4 :: real]. x \<noteq> 0) \<longrightarrow> w = map (\<lambda>x. x / norm_v [3, 4]) [3, 4] \<and> norm_v w = 1"
    using norm_constraint_norm2 [OF m, of "[3, 4]"] by blast
  have "w = [3 / 5, 4 / 5] \<and> norm_v w = 1"
    using w(2) by (auto simp: norm_v_3_4)
  then show ?thesis
    using w(1) by auto
qed

text \<open>
  C6 as stated asks for an error on the all-zero input. The source divides by the norm
  without testing it, so the call returns normally.
\<close>

theorem norm_constraint_zero_vector_no_error:
  "\<not> isl (norm_constraint ex_model [0, 0])"
  by (simp add: norm_constraint_def ex_model_def)

section \<open>The arithmetic of computed values\<close>

lemmas dbl_defs =
  zero_dbl_def one_dbl_def plus_dbl_def minus_dbl_def times_dbl_def divide_dbl_def

lemma sum_Fin: "(\<Sum>k\<in>A. Fin (f k)) = Fin (\<Sum>k\<in>A. f k)"
proof (cases "finite A")
  case True
  then show ?thesis
    by (induction A) (simp_all add: dbl_defs)
next
  case False
  then show ?thesis
    by (simp add: dbl_defs)
qed


lemma dbl_diff_diff: "a - b - c = a - (b + c)" for a b c :: dbl
  by (cases a; cases b; cases c) (simp_all add: dbl_defs)

lemma fin_m_simps:
  "rows (fin_m A) = rows A" "cols (fin_m A) = cols A" "coeff (fin_m A) i j = Fin (coeff A i j)"
  by (simp_all add: fin_m_def)

lemma fin_transpose: "transpose_m (fin_m A) = fin_m (transpose_m A)"
  by (simp add: fin_m_def transpose_m_def)

lemma fin_mul: "mat_mul (fin_m A) (fin_m B) = fin_m (mat_mul A B)"
  by (simp add: fin_m_def mat_mul_def times_dbl_def sum_Fin)


lemma fin_mul_diag:
  assumes "cols A = length g"
  shows "mat_mul (fin_m A) (asDiagonal (map Fin g)) = fin_m (mat_mul A (asDiagonal g))"
proof -
  have "(\<Sum>k<length g. Fin (coeff A i k) * (if k = j then map Fin g ! k else 0)) =
          Fin (\<Sum>k<length g. coeff A i k * (if k = j then g ! k else 0))" for i j
  proof -
    have "(\<Sum>k<length g. Fin (coeff A i k) * (if k = j then map Fin g ! k else 0)) =
            (\<Sum>k<length g. Fin (coeff A i k * (if k = j then g ! k else 0)))"
      by (intro sum.cong) (simp_all add: dbl_defs)
    then show ?thesis
      by (simp add: sum_Fin)
  qed
  then show ?thesis
    using assms by (simp add: fin_m_def mat_mul_def asDiagonal_def)
qed

lemma fin_row: "row (fin_m A) i = map Fin (row A i)"
  by (simp add: row_def fin_m_def)


lemma fin_estimate_c_direct:
  assumes "rows x = length g"
  shows "estimate_c_direct (fin_m x) (fin_m y) (map Fin g) (fin_m xtgxi) =
           fin_m (estimate_c_direct x y g xtgxi)"
proof -
  have "cols (mat_mul xtgxi (transpose_m x)) = length g"
    using assms by (simp add: mat_mul_def transpose_m_def)
  then show ?thesis
    by (simp add: estimate_c_direct_def fin_transpose fin_mul fin_mul_diag)
qed

lemma fin_m_update:
  "(fin_m B)\<lparr>coeff := (coeff (fin_m B))(i := (\<lambda>c. Fin (f c)))\<rparr> =
     fin_m (B\<lparr>coeff := (coeff B)(i := f)\<rparr>)"
  by (auto simp: fin_m_def fun_eq_iff)

lemma fin_solve_lower:
  assumes "\<forall>r. i \<le> r \<and> r < rows L \<longrightarrow> coeff L r r \<noteq> 0"
  shows "solve_lower (fin_m L) i (fin_m B) = fin_m (solve_lower L i B)"
  using assms
proof (induction L i B rule: solve_lower.induct)
  case (1 L i B)
  show ?case
  proof (cases "i < rows L")
    case True
    then have nz: "coeff L i i \<noteq> 0"
      using "1.prems" by simp
    have step: "(Fin (coeff B i c) - (\<Sum>j<i. Fin (coeff L i j) * Fin (coeff B j c)))
                  / Fin (coeff L i i) =
                Fin ((coeff B i c - (\<Sum>j<i. coeff L i j * coeff B j c)) / coeff L i i)" for c
      using nz by (simp add: dbl_defs sum_Fin)
    have "solve_lower (fin_m L) i (fin_m B) =
            solve_lower (fin_m L) (i + 1)
              (fin_m (B\<lparr>coeff := (coeff B)(i := (\<lambda>c.
                 (coeff B i c - (\<Sum>j<i. coeff L i j * coeff B j c)) / coeff L i i))\<rparr>))"
      using True by (subst solve_lower.simps) (simp add: fin_m_simps step fin_m_update)
    also have "\<dots> = fin_m (solve_lower L (i + 1)
              (B\<lparr>coeff := (coeff B)(i := (\<lambda>c.
                 (coeff B i c - (\<Sum>j<i. coeff L i j * coeff B j c)) / coeff L i i))\<rparr>))"
      using "1.prems" by (intro "1.IH" [OF True]) simp
    also have "\<dots> = fin_m (solve_lower L i B)"
      using True by (subst (2) solve_lower.simps) simp
    finally show ?thesis .
  next
    case False
    then show ?thesis
      by (subst (1 2) solve_lower.simps) (simp add: fin_m_simps)
  qed
qed

lemma fin_solve_upper:
  assumes "\<forall>r<i. coeff L r r \<noteq> 0"
  shows "solve_upper (fin_m L) i (fin_m B) = fin_m (solve_upper L i B)"
  using assms
proof (induction i arbitrary: B)
  case 0
  show ?case
    by simp
next
  case (Suc i)
  have nz: "coeff L i i \<noteq> 0"
    using Suc.prems by simp
  have step: "(Fin (coeff B i c) -
                 (\<Sum>j\<in>{Suc i..<rows L}. Fin (coeff L j i) * Fin (coeff B j c)))
                / Fin (coeff L i i) =
              Fin ((coeff B i c - (\<Sum>j\<in>{Suc i..<rows L}. coeff L j i * coeff B j c))
                    / coeff L i i)" for B :: mat and c
    using nz by (simp add: dbl_defs sum_Fin)
  show ?case
    using Suc.prems by (simp add: fin_m_simps step fin_m_update Suc.IH)
qed

lemma rows_llt_unblocked: "rows (fst (llt_unblocked k m)) = rows m"
proof (induction k m rule: llt_unblocked.induct)
  case (1 k m)
  show ?case
    using "1.IH" by (subst llt_unblocked.simps) (simp add: Let_def)
qed

lemma llt_solve_finite:
  assumes "pivots_nonzero A"
  shows "llt_solve A B = fin_m (llt_solve_exact A B)"
proof -
  have "\<forall>r<rows (fst (llt_unblocked 0 A)). coeff (fst (llt_unblocked 0 A)) r r \<noteq> 0"
    using assms by (simp add: pivots_nonzero_def rows_llt_unblocked)
  then show ?thesis
    by (simp add: llt_solve_def llt_solve_exact_def Let_def fin_m_simps fin_solve_lower
        fin_solve_upper)
qed


section \<open>Shapes and normal returns\<close>

lemma shape_solve_lower:
  "rows (solve_lower L i B) = rows B \<and> cols (solve_lower L i B) = cols B"
  by (induction L i B rule: solve_lower.induct) (subst (1 2) solve_lower.simps, simp)

lemma shape_solve_upper:
  "rows (solve_upper L i B) = rows B \<and> cols (solve_upper L i B) = cols B"
  by (induction L i B rule: solve_upper.induct) simp_all

lemma shape_llt_solve: "rows (llt_solve A B) = rows B" "cols (llt_solve A B) = cols B"
  by (simp_all add: llt_solve_def Let_def shape_solve_upper shape_solve_lower fin_m_simps)

lemma shape_llt_solve_exact:
  "rows (llt_solve_exact A B) = rows B" "cols (llt_solve_exact A B) = cols B"
  by (simp_all add: llt_solve_exact_def Let_def shape_solve_upper shape_solve_lower)

lemma invxtgx_xtgx: "invxtgx x g = llt_solve (xtgx x g) (Identity (cols x) (cols x))"
  by (simp add: invxtgx_def xtgx_def)

lemma shape_invxtgx: "rows (invxtgx x g) = cols x" "cols (invxtgx x g) = cols x"
  by (simp_all add: invxtgx_xtgx shape_llt_solve Identity_def)

lemma shape_invxtgx_exact:
  "rows (invxtgx_exact x g) = cols x" "cols (invxtgx_exact x g) = cols x"
  by (simp_all add: invxtgx_exact_def shape_llt_solve_exact Identity_def)

lemma invxtgx_finite:
  assumes "pivots_nonzero (xtgx x g)"
  shows "invxtgx x g = fin_m (invxtgx_exact x g)"
  by (simp add: invxtgx_xtgx invxtgx_exact_def llt_solve_finite [OF assms])

lemma shape_estimate_c_direct:
  "rows (estimate_c_direct x y g xtgxi) = rows xtgxi"
  "cols (estimate_c_direct x y g xtgxi) = cols y"
  by (simp_all add: estimate_c_direct_def mat_mul_def)

lemma A_loop_returns:
  assumes "stat_returns S"
  shows "\<exists>A'. A_loop S M c_hat icell A = Inr A' \<and> rows A' = rows A \<and> cols A' = cols A"
  using assms
proof (induction S M c_hat icell A rule: A_loop.induct)
  case (1 S M c_hat icell A)
  show ?case
  proof (cases "int icell < sint (m_ncells M)")
    case True
    obtain s1 s2 cv where s: "stat_std S (row c_hat icell) = Inr s1"
        "stat_std S (row (fin_m (m_c M)) icell) = Inr s2"
        "stat_cov S (row (fin_m (m_c M)) icell) (row c_hat icell) = Inr cv"
      using "1.prems" unfolding stat_returns_def by metis
    then obtain v where v: "A_row S M c_hat icell = Inr v"
      by (simp add: A_row_def Let_def)
    from "1.IH" [OF True v "1.prems"]
    obtain A' where "A_loop S M c_hat (icell + 1) (set_row A icell v) = Inr A'"
        "rows A' = rows (set_row A icell v)" "cols A' = cols (set_row A icell v)"
      by blast
    then show ?thesis
      using True v by (subst A_loop.simps) (simp add: set_row_def)
  next
    case False
    then show ?thesis
      by (subst A_loop.simps) simp
  qed
qed

lemma grad_returns:
  assumes "stat_returns S"
    and "sint (m_ngenes M) = int (length g)"
    and "sint (m_ncells M) = int (cols (m_x M))"
    and "sint (m_nsamples M) = int (cols (m_y M))"
    and "rows (m_x M) = length g" and "rows (m_y M) = length g"
  shows "\<exists>gr'. grad S M gr g = Inr gr' \<and> length gr' = length g"
proof -
  let ?xi = "invxtgx (m_x M) g"
  let ?c = "estimate_c_direct (fin_m (m_x M)) (fin_m (m_y M)) (map Fin g) ?xi"
  obtain A where A: "A_loop S M ?c 0
       \<lparr>rows = nat (sint (m_ncells M)), cols = nat (sint (m_nsamples M)),
        coeff = (\<lambda>i j. Fin 0)\<rparr>
       = Inr A"
    using A_loop_returns [OF assms(1)] by blast
  have "int (rows ?c) = sint (m_ncells M)" "int (cols ?c) = sint (m_nsamples M)"
    using assms by (simp_all add: shape_estimate_c_direct shape_invxtgx fin_m_simps)
  then show ?thesis
    using assms A
    by (simp add: grad_def grad_explicit_inverse_def Let_def clampPos_eq_map diagonal_def
        mat_mul_def transpose_m_def mat_sub_def fin_m_simps)
qed



lemma evaluate_loop_Inr:
  assumes "\<forall>i. icell \<le> i \<and> int i < sint (m_ncells M) \<longrightarrow>
             stat_cor S (row (fin_m (m_c M)) i) (row c_hat i) = Inr (rho i)"
  shows "evaluate_loop S M c_hat icell res =
           Inr (res - (\<Sum>i = icell..<nat (sint (m_ncells M)). rho i))"
  using assms
proof (induction S M c_hat icell res rule: evaluate_loop.induct)
  case (1 S M c_hat icell res)
  show ?case
  proof (cases "int icell < sint (m_ncells M)")
    case True
    have c: "stat_cor S (row (fin_m (m_c M)) icell) (row c_hat icell) = Inr (rho icell)"
      using "1.prems" True by simp
    have "evaluate_loop S M c_hat (icell + 1) (res - rho icell) =
            Inr (res - rho icell - (\<Sum>i = icell + 1..<nat (sint (m_ncells M)). rho i))"
      using "1.prems" by (intro "1.IH" [OF True c]) simp
    moreover have "(\<Sum>i = icell..<nat (sint (m_ncells M)). rho i) =
                     rho icell + (\<Sum>i = icell + 1..<nat (sint (m_ncells M)). rho i)"
      using True by (subst sum.atLeast_Suc_lessThan) auto
    ultimately show ?thesis
      using True c by (subst evaluate_loop.simps) (simp add: dbl_diff_diff)
  next
    case False
    then have "nat (sint (m_ncells M)) \<le> icell"
      by linarith
    moreover have "res - Fin 0 = res"
      by (cases res) (simp_all add: dbl_defs)
    ultimately show ?thesis
      using False by (subst evaluate_loop.simps) (simp add: zero_dbl_def)
  qed
qed

lemma evaluate_loop_Inl:
  assumes "icell \<le> i" and "int i < sint (m_ncells M)"
    and "isl (stat_cor S (row (fin_m (m_c M)) i) (row c_hat i))"
  shows "isl (evaluate_loop S M c_hat icell res)"
  using assms
proof (induction S M c_hat icell res rule: evaluate_loop.induct)
  case (1 S M c_hat icell res)
  have lt: "int icell < sint (m_ncells M)"
    using "1.prems" by linarith
  show ?case
  proof (cases "stat_cor S (row (fin_m (m_c M)) icell) (row c_hat icell)")
    case (Inl e)
    then show ?thesis
      using lt by (subst evaluate_loop.simps) simp
  next
    case (Inr r)
    then have "i \<noteq> icell"
      using "1.prems" by auto
    then have "icell + 1 \<le> i"
      using "1.prems" by simp
    then have "isl (evaluate_loop S M c_hat (icell + 1) (res - r))"
      using "1.IH" [OF lt Inr] "1.prems" by simp
    then show ?thesis
      using lt Inr by (subst evaluate_loop.simps) simp
  qed
qed

lemma evaluate_unfold:
  assumes "consistent M g"
  shows "evaluate S M g (invxtgx (m_x M) g) =
           (case evaluate_loop S M
                   (estimate_c_direct (fin_m (m_x M)) (fin_m (m_y M)) (map Fin g)
                      (invxtgx (m_x M) g)) 0 (Fin 0) of
              Inl e \<Rightarrow> Inl e
            | Inr res \<Rightarrow> Inr (res / Fin (real (cols (m_x M)))))"
  using assms
  by (simp add: consistent_def evaluate_def Let_def shape_invxtgx
      shape_estimate_c_direct fin_m_simps split: sum.splits)

lemma evaluate_returns:
  assumes "cor_returns S" and "consistent M g"
  shows "\<exists>r. evaluate S M g (invxtgx (m_x M) g) = Inr r"
proof -
  let ?c = "estimate_c_direct (fin_m (m_x M)) (fin_m (m_y M)) (map Fin g) (invxtgx (m_x M) g)"
  have "\<forall>i. 0 \<le> i \<and> int i < sint (m_ncells M) \<longrightarrow>
          stat_cor S (row (fin_m (m_c M)) i) (row ?c i) =
            Inr (projr (stat_cor S (row (fin_m (m_c M)) i) (row ?c i)))"
    using assms(1) unfolding cor_returns_def by (metis sum.sel(2))
  from evaluate_loop_Inr [OF this, of "Fin 0"] show ?thesis
    by (simp add: evaluate_unfold [OF assms(2)])
qed

section \<open>The factorisation and the triangular solves\<close>

lemma chol_inv_start: "chol_inv A 0 A"
  by (simp add: chol_inv_def)

lemma chol_inv_step:
  assumes inv: "chol_inv A k m" and k: "k < rows A"
    and x: "x = coeff m k k - (\<Sum>j<k. coeff m k j * coeff m k j)" and pos: "0 < x"
    and m': "m' = m\<lparr>coeff := (\<lambda>i j.
               if i = k \<and> j = k then sqrt x
               else if k < i \<and> i < rows m \<and> j = k
               then (coeff m i k - (\<Sum>l<k. coeff m i l * coeff m k l)) / sqrt x
               else coeff m i j)\<rparr>"
  shows "chol_inv A (k + 1) m'"
proof -
  have rm: "rows m = rows A" "cols m = cols A"
    and same: "\<And>i j. k \<le> j \<or> i < j \<or> rows A \<le> i \<Longrightarrow> coeff m i j = coeff A i j"
    and dpos: "\<And>j. j < k \<Longrightarrow> 0 < coeff m j j"
    and eq: "\<And>i j. j < k \<Longrightarrow> j \<le> i \<Longrightarrow> i < rows A \<Longrightarrow>
               coeff A i j = (\<Sum>l\<le>j. coeff m i l * coeff m j l)"
    using inv by (auto simp: chol_inv_def)
  have sx: "0 < sqrt x" "sqrt x * sqrt x = x"
    using pos by simp_all
  have old: "coeff m' i j = coeff m i j" if "j \<noteq> k" for i j
    using that by (simp add: m')
  have kk: "coeff m' k k = sqrt x"
    by (simp add: m')
  have ik: "coeff m' i k = (coeff m i k - (\<Sum>l<k. coeff m i l * coeff m k l)) / sqrt x"
    if "k < i" "i < rows A" for i
    using that by (simp add: m' rm)
  have 1: "k + 1 \<le> rows A" "rows m' = rows A" "cols m' = cols A"
    using k by (simp_all add: m' rm)
  have 2: "coeff m' i j = coeff A i j" if "k + 1 \<le> j \<or> i < j \<or> rows A \<le> i" for i j
  proof (cases "j = k")
    case True
    with that have "i < k \<or> rows A \<le> i" by auto
    then have "coeff m' i j = coeff m i j"
      using True k by (auto simp: m' rm)
    also have "\<dots> = coeff A i j"
      using True by (intro same) simp
    finally show ?thesis .
  next
    case False
    then have "coeff m' i j = coeff m i j" by (rule old)
    also have "\<dots> = coeff A i j"
      using that False by (intro same) auto
    finally show ?thesis .
  qed
  have 3: "0 < coeff m' j j" if "j < k + 1" for j
  proof (cases "j = k")
    case True
    then show ?thesis using kk sx by simp
  next
    case False
    with that have "j < k" by simp
    then show ?thesis using old [OF False] dpos by simp
  qed
  have 4: "coeff A i j = (\<Sum>l\<le>j. coeff m' i l * coeff m' j l)"
    if "j < k + 1" "j \<le> i" "i < rows A" for i j
  proof (cases "j = k")
    case False
    with that have jk: "j < k" by simp
    have "(\<Sum>l\<le>j. coeff m' i l * coeff m' j l) = (\<Sum>l\<le>j. coeff m i l * coeff m j l)"
      using jk by (intro sum.cong) (auto simp: old)
    then show ?thesis
      using eq [OF jk that(2,3)] by simp
  next
    case True
    have split: "(\<Sum>l\<le>k. coeff m' i l * coeff m' k l) =
                   (\<Sum>l<k. coeff m i l * coeff m k l) + coeff m' i k * coeff m' k k"
    proof -
      have "{..k} = insert k {..<k}" by auto
      then have "(\<Sum>l\<le>k. coeff m' i l * coeff m' k l) =
                   coeff m' i k * coeff m' k k + (\<Sum>l<k. coeff m' i l * coeff m' k l)"
        by simp
      moreover have "(\<Sum>l<k. coeff m' i l * coeff m' k l) = (\<Sum>l<k. coeff m i l * coeff m k l)"
        by (intro sum.cong) (auto simp: old)
      ultimately show ?thesis by simp
    qed
    have Aik: "coeff m i k = coeff A i k"
      by (intro same) simp
    show ?thesis
    proof (cases "i = k")
      case True
      then have "coeff m' i k * coeff m' k k = x"
        using kk sx by simp
      then show ?thesis
        using split \<open>j = k\<close> True x Aik by simp
    next
      case False
      with that True have "k < i" by simp
      then have "coeff m' i k * coeff m' k k =
                   coeff m i k - (\<Sum>l<k. coeff m i l * coeff m k l)"
        using ik [OF _ that(3)] kk sx by simp
      then show ?thesis
        using split \<open>j = k\<close> Aik by simp
    qed
  qed
  show ?thesis
    unfolding chol_inv_def using 1 2 3 4 by blast
qed

lemma chol_inv_run:
  assumes "chol_inv A k m" and "snd (llt_unblocked k m) = - 1"
  shows "chol_inv A (rows A) (fst (llt_unblocked k m))"
  using assms
proof (induction k m rule: llt_unblocked.induct)
  case (1 k m)
  have rm: "rows m = rows A"
    using "1.prems"(1) by (simp add: chol_inv_def)
  show ?case
  proof (cases "k < rows m")
    case False
    then have "llt_unblocked k m = (m, - 1)"
      by (subst llt_unblocked.simps) simp
    moreover have "chol_inv A (rows A) m"
    proof -
      have "k = rows A"
        using "1.prems"(1) False rm by (simp add: chol_inv_def)
      then show ?thesis
        using "1.prems"(1) by simp
    qed
    ultimately show ?thesis by simp
  next
    case True
    define x where "x = coeff m k k - (\<Sum>j<k. coeff m k j * coeff m k j)"
    define m' where "m' = m\<lparr>coeff := (\<lambda>i j.
               if i = k \<and> j = k then sqrt x
               else if k < i \<and> i < rows m \<and> j = k
               then (coeff m i k - (\<Sum>l<k. coeff m i l * coeff m k l)) / sqrt x
               else coeff m i j)\<rparr>"
    have unfold: "llt_unblocked k m = (if x \<le> 0 then (m, int k) else llt_unblocked (k + 1) m')"
      unfolding x_def m'_def using True
      by (subst llt_unblocked.simps [of k m]) (simp add: Let_def)
    have pos: "0 < x"
    proof (rule ccontr)
      assume "\<not> 0 < x"
      then have "llt_unblocked k m = (m, int k)"
        using unfold by simp
      then show False
        using "1.prems"(2) by simp
    qed
    have step: "chol_inv A (k + 1) m'"
      using "1.prems"(1) True rm by (intro chol_inv_step [OF _ _ x_def pos m'_def]) simp_all
    have "llt_unblocked k m = llt_unblocked (k + 1) m'"
      using unfold pos by simp
    moreover have "chol_inv A (rows A) (fst (llt_unblocked (k + 1) m'))"
    proof -
      have nle: "\<not> x \<le> 0"
        using pos by simp
      have s: "snd (llt_unblocked (k + 1) m') = - 1"
        using "1.prems"(2) unfold pos by simp
      show ?thesis
        using "1.IH" [OF True x_def nle] step s unfolding m'_def by simp
    qed
    ultimately show ?thesis by simp
  qed
qed

lemma solve_lower_solves:
  fixes L B :: mat
  assumes "\<forall>r<rows L. coeff L r r \<noteq> 0"
  shows "(\<forall>r<i. \<forall>c. coeff (solve_lower L i B) r c = coeff B r c) \<and>
         (\<forall>r. i \<le> r \<and> r < rows L \<longrightarrow>
            (\<forall>c. (\<Sum>j\<le>r. coeff L r j * coeff (solve_lower L i B) j c) = coeff B r c))"
  using assms
proof (induction L i B rule: solve_lower.induct)
  case (1 L i B)
  show ?case
  proof (cases "i < rows L")
    case False
    then have "solve_lower L i B = B"
      by (subst solve_lower.simps) simp
    then show ?thesis
      using False by simp
  next
    case True
    define B' where "B' = B\<lparr>coeff := (coeff B)(i := (\<lambda>c.
                  (coeff B i c - (\<Sum>j<i. coeff L i j * coeff B j c)) / coeff L i i))\<rparr>"
    define Y where "Y = solve_lower L (i + 1) B'"
    have Y: "solve_lower L i B = Y"
      using True unfolding Y_def B'_def by (subst solve_lower.simps) simp
    have IH1: "coeff Y r c = coeff B' r c" if "r < i + 1" for r c
      using "1.IH" [OF True "1.prems"] that unfolding Y_def B'_def by simp
    have IH2: "(\<Sum>j\<le>r. coeff L r j * coeff Y j c) = coeff B' r c"
      if "i + 1 \<le> r" "r < rows L" for r c
      using "1.IH" [OF True "1.prems"] that unfolding Y_def B'_def by simp
    have B'_other: "coeff B' r c = coeff B r c" if "r \<noteq> i" for r c
      using that by (simp add: B'_def)
    have B'_i: "coeff B' i c = (coeff B i c - (\<Sum>j<i. coeff L i j * coeff B j c)) / coeff L i i"
      for c
      by (simp add: B'_def)
    have nz: "coeff L i i \<noteq> 0"
      using "1.prems" True by simp
    have a: "coeff Y r c = coeff B r c" if "r < i" for r c
      using IH1 [of r c] B'_other [of r c] that by simp
    have b: "(\<Sum>j\<le>r. coeff L r j * coeff Y j c) = coeff B r c"
      if "i \<le> r" "r < rows L" for r c
    proof (cases "r = i")
      case False
      then show ?thesis
        using IH2 [of r c] B'_other [of r c] that by simp
    next
      case True
      have "{..i} = insert i {..<i}" by auto
      then have "(\<Sum>j\<le>i. coeff L i j * coeff Y j c) =
                   coeff L i i * coeff Y i c + (\<Sum>j<i. coeff L i j * coeff Y j c)"
        by simp
      also have "(\<Sum>j<i. coeff L i j * coeff Y j c) = (\<Sum>j<i. coeff L i j * coeff B j c)"
        by (intro sum.cong) (auto simp: a)
      also have "coeff L i i * coeff Y i c =
                   coeff B i c - (\<Sum>j<i. coeff L i j * coeff B j c)"
        using IH1 [of i c] B'_i [of c] nz by simp
      finally show ?thesis
        using True by simp
    qed
    show ?thesis
      unfolding Y using a b by blast
  qed
qed

lemma solve_upper_solves:
  fixes L B :: mat
  assumes "\<forall>r<rows L. coeff L r r \<noteq> 0" and "i \<le> rows L"
  shows "(\<forall>r\<ge>i. \<forall>c. coeff (solve_upper L i B) r c = coeff B r c) \<and>
         (\<forall>r<i. \<forall>c. (\<Sum>j = r..<rows L. coeff L j r * coeff (solve_upper L i B) j c) =
                      coeff B r c)"
  using assms
proof (induction L i B rule: solve_upper.induct)
  case (1 L B)
  then show ?case by simp
next
  case (2 L i B)
  define B' where "B' = B\<lparr>coeff := (coeff B)(i := (\<lambda>c.
            (coeff B i c - (\<Sum>j\<in>{i + 1..<rows L}. coeff L j i * coeff B j c)) / coeff L i i))\<rparr>"
  define X where "X = solve_upper L i B'"
  have X: "solve_upper L (Suc i) B = X"
    by (simp add: X_def B'_def)
  have i: "i < rows L"
    using "2.prems" by simp
  have IH1: "coeff X r c = coeff B' r c" if "i \<le> r" for r c
    using "2.IH" "2.prems" that unfolding X_def B'_def by simp
  have IH2: "(\<Sum>j = r..<rows L. coeff L j r * coeff X j c) = coeff B' r c" if "r < i" for r c
    using "2.IH" "2.prems" that unfolding X_def B'_def by simp
  have B'_other: "coeff B' r c = coeff B r c" if "r \<noteq> i" for r c
    using that by (simp add: B'_def)
  have B'_i: "coeff B' i c =
      (coeff B i c - (\<Sum>j\<in>{i + 1..<rows L}. coeff L j i * coeff B j c)) / coeff L i i" for c
    by (simp add: B'_def)
  have nz: "coeff L i i \<noteq> 0"
    using "2.prems" i by simp
  have a: "coeff X r c = coeff B r c" if "Suc i \<le> r" for r c
    using IH1 [of r c] B'_other [of r c] that by simp
  have b: "(\<Sum>j = r..<rows L. coeff L j r * coeff X j c) = coeff B r c" if "r < Suc i" for r c
  proof (cases "r = i")
    case False
    then show ?thesis
      using IH2 [of r c] B'_other [of r c] that by simp
  next
    case True
    have "{i..<rows L} = insert i {i + 1..<rows L}"
      using i by auto
    then have "(\<Sum>j = i..<rows L. coeff L j i * coeff X j c) =
                 coeff L i i * coeff X i c + (\<Sum>j = i + 1..<rows L. coeff L j i * coeff X j c)"
      by simp
    also have "(\<Sum>j = i + 1..<rows L. coeff L j i * coeff X j c) =
                 (\<Sum>j = i + 1..<rows L. coeff L j i * coeff B j c)"
      by (intro sum.cong) (auto simp: a)
    also have "coeff L i i * coeff X i c =
                 coeff B i c - (\<Sum>j = i + 1..<rows L. coeff L j i * coeff B j c)"
      using IH1 [of i c] B'_i [of c] nz by simp
    finally show ?thesis
      using True by simp
  qed
  show ?case
    unfolding X using a b by blast
qed

lemma llt_success_factor:
  assumes "llt_succeeds A"
  shows "chol_inv A (rows A) (fst (llt_unblocked 0 A))"
  using assms chol_inv_run [OF chol_inv_start] by (simp add: llt_succeeds_def)

lemma llt_solve_right:
  assumes sym: "symmetric_m A" and ok: "llt_succeeds A" and r: "r < rows A"
  shows "(\<Sum>m<rows A. coeff A r m * coeff (llt_solve_exact A B) m c) = coeff B r c"
proof -
  define n where "n = rows A"
  define L where "L = fst (llt_unblocked 0 A)"
  define Y where "Y = solve_lower L 0 B"
  define X where "X = solve_upper L n Y"
  have ch: "chol_inv A n L"
    unfolding n_def L_def using ok by (rule llt_success_factor)
  have rL: "rows L = n"
    using ch by (simp add: chol_inv_def n_def)
  have nz: "\<forall>r<rows L. coeff L r r \<noteq> 0"
    using ch rL unfolding chol_inv_def by fastforce
  have fac: "coeff A i j = (\<Sum>l\<le>j. coeff L i l * coeff L j l)" if "j \<le> i" "i < n" for i j
    using ch that unfolding chol_inv_def n_def by simp
  have X: "llt_solve_exact A B = X"
    by (simp add: llt_solve_exact_def Let_def X_def Y_def L_def [symmetric] rL)
  have fwd: "(\<Sum>j\<le>i. coeff L i j * coeff Y j c) = coeff B i c" if "i < n" for i c
    using solve_lower_solves [OF nz, of 0 B] that rL unfolding Y_def by simp
  have bwd: "(\<Sum>j = i..<n. coeff L j i * coeff X j c) = coeff Y i c" if "i < n" for i c
    using solve_upper_solves [OF nz, of n Y] that rL unfolding X_def by simp
  have A_eq: "coeff A r m = (\<Sum>l\<le>r. if l \<le> m then coeff L r l * coeff L m l else 0)"
    if m: "m < n" for m
  proof (cases "m \<le> r")
    case True
    have "coeff A r m = (\<Sum>l\<le>m. coeff L r l * coeff L m l)"
      using fac [OF True] r by (simp add: n_def)
    also have "\<dots> = (\<Sum>l\<in>{..r} \<inter> {l. l \<le> m}. coeff L r l * coeff L m l)"
      using True by (intro sum.cong) auto
    also have "\<dots> = (\<Sum>l\<le>r. if l \<le> m then coeff L r l * coeff L m l else 0)"
      by (simp add: sum.inter_restrict)
    finally show ?thesis .
  next
    case False
    then have rm: "r \<le> m" by simp
    have "coeff A r m = coeff A m r"
      using sym r m unfolding symmetric_m_def n_def by simp
    also have "\<dots> = (\<Sum>l\<le>r. coeff L m l * coeff L r l)"
      using fac [OF rm m] .
    also have "\<dots> = (\<Sum>l\<le>r. if l \<le> m then coeff L r l * coeff L m l else 0)"
      using rm by (intro sum.cong) (auto simp: mult.commute)
    finally show ?thesis .
  qed
  have "(\<Sum>m<n. coeff A r m * coeff X m c) =
          (\<Sum>m<n. \<Sum>l\<le>r. if l \<le> m then coeff L r l * (coeff L m l * coeff X m c) else 0)"
  proof (intro sum.cong refl)
    fix m assume "m \<in> {..<n}"
    then have "coeff A r m * coeff X m c =
                 (\<Sum>l\<le>r. if l \<le> m then coeff L r l * coeff L m l else 0) * coeff X m c"
      by (simp add: A_eq)
    also have "\<dots> = (\<Sum>l\<le>r. (if l \<le> m then coeff L r l * coeff L m l else 0) * coeff X m c)"
      by (rule sum_distrib_right)
    also have "\<dots> = (\<Sum>l\<le>r. if l \<le> m then coeff L r l * (coeff L m l * coeff X m c) else 0)"
      by (intro sum.cong refl) auto
    finally show "coeff A r m * coeff X m c =
        (\<Sum>l\<le>r. if l \<le> m then coeff L r l * (coeff L m l * coeff X m c) else 0)" .
  qed
  also have "\<dots> = (\<Sum>l\<le>r. \<Sum>m<n. if l \<le> m then coeff L r l * (coeff L m l * coeff X m c) else 0)"
    by (rule sum.swap)
  also have "\<dots> = (\<Sum>l\<le>r. coeff L r l * (\<Sum>m = l..<n. coeff L m l * coeff X m c))"
  proof (intro sum.cong refl)
    fix l
    have "(\<Sum>m<n. if l \<le> m then coeff L r l * (coeff L m l * coeff X m c) else 0) =
            (\<Sum>m\<in>{..<n} \<inter> {m. l \<le> m}. coeff L r l * (coeff L m l * coeff X m c))"
      by (simp add: sum.inter_restrict)
    also have "{..<n} \<inter> {m. l \<le> m} = {l..<n}"
      by auto
    finally show "(\<Sum>m<n. if l \<le> m then coeff L r l * (coeff L m l * coeff X m c) else 0) =
                    coeff L r l * (\<Sum>m = l..<n. coeff L m l * coeff X m c)"
      by (simp add: sum_distrib_left)
  qed
  also have "\<dots> = (\<Sum>l\<le>r. coeff L r l * coeff Y l c)"
  proof (intro sum.cong refl)
    fix l assume "l \<in> {..r}"
    then have "l < n"
      using r by (simp add: n_def)
    then show "coeff L r l * (\<Sum>m = l..<n. coeff L m l * coeff X m c) =
                 coeff L r l * coeff Y l c"
      by (simp add: bwd)
  qed
  also have "\<dots> = coeff B r c"
    using fwd [of r c] r by (simp add: n_def)
  finally show ?thesis
    by (simp add: X n_def)
qed

lemma right_inverse_two_sided:
  fixes A X :: "nat \<Rightarrow> nat \<Rightarrow> real"
  assumes sym: "\<And>i j. i < n \<Longrightarrow> j < n \<Longrightarrow> A i j = A j i"
    and right: "\<And>i j. i < n \<Longrightarrow> j < n \<Longrightarrow> (\<Sum>m<n. A i m * X m j) = (if i = j then 1 else 0)"
    and i: "i < n" and j: "j < n"
  shows "(\<Sum>m<n. X i m * A m j) = (if i = j then 1 else 0)"
proof -
  have T: "(\<Sum>m<n. X m a * A m b) = (if a = b then 1 else 0)" if "a < n" "b < n" for a b
  proof -
    have "(\<Sum>m<n. X m a * A m b) = (\<Sum>m<n. A b m * X m a)"
      using that by (intro sum.cong refl) (simp add: sym mult.commute)
    then show ?thesis
      using right [OF that(2,1)] by auto
  qed
  have Xsym: "X a b = X b a" if "a < n" "b < n" for a b
  proof -
    have "(\<Sum>l<n. (if a = l then 1 else 0) * X l b) = (\<Sum>l<n. if a = l then X l b else 0)"
      by (intro sum.cong refl) auto
    also have "\<dots> = X a b"
      using that by (simp add: sum.delta')
    finally have "X a b = (\<Sum>l<n. (if a = l then 1 else 0) * X l b)"
      by simp
    also have "\<dots> = (\<Sum>l<n. (\<Sum>m<n. X m a * A m l) * X l b)"
      using that by (intro sum.cong refl) (simp add: T)
    also have "\<dots> = (\<Sum>l<n. \<Sum>m<n. X m a * (A m l * X l b))"
      by (simp add: sum_distrib_right mult.assoc)
    also have "\<dots> = (\<Sum>m<n. \<Sum>l<n. X m a * (A m l * X l b))"
      by (rule sum.swap)
    also have "\<dots> = (\<Sum>m<n. X m a * (\<Sum>l<n. A m l * X l b))"
      by (simp add: sum_distrib_left)
    also have "\<dots> = (\<Sum>m<n. X m a * (if m = b then 1 else 0))"
      using that by (intro sum.cong refl) (simp add: right)
    also have "\<dots> = (\<Sum>m<n. if m = b then X m a else 0)"
      by (intro sum.cong refl) auto
    also have "\<dots> = X b a"
      using that by (simp add: sum.delta)
    finally show ?thesis .
  qed
  have "(\<Sum>m<n. X i m * A m j) = (\<Sum>m<n. X m i * A m j)"
    using i by (intro sum.cong refl) (simp add: Xsym)
  then show ?thesis
    using T [OF i j] by simp
qed

lemma llt_solve_inverse:
  assumes "symmetric_m A" and "llt_succeeds A"
  shows "inverse_of A (llt_solve_exact A (Identity (rows A) (rows A)))"
proof -
  define n where "n = rows A"
  define X where "X = llt_solve_exact A (Identity n n)"
  have shape: "cols A = n" "rows X = n" "cols X = n"
    using assms(1) by (simp_all add: symmetric_m_def n_def X_def shape_llt_solve_exact Identity_def)
  have right: "(\<Sum>m<n. coeff A i m * coeff X m j) = (if i = j then 1 else 0)"
    if "i < n" "j < n" for i j
    using llt_solve_right [OF assms, of i "Identity n n" j] that
    by (simp add: n_def X_def Identity_def)
  have left: "(\<Sum>m<n. coeff X i m * coeff A m j) = (if i = j then 1 else 0)"
    if "i < n" "j < n" for i j
  proof (rule right_inverse_two_sided [OF _ _ that])
    show "coeff A a b = coeff A b a" if "a < n" "b < n" for a b
      using assms(1) that by (simp add: symmetric_m_def n_def)
    show "(\<Sum>m<n. coeff A a m * coeff X m b) = (if a = b then 1 else 0)"
      if "a < n" "b < n" for a b
      using right [OF that] .
  qed
  show ?thesis
    unfolding inverse_of_def X_def [symmetric] n_def [symmetric]
    using shape right left by (simp add: mat_mul_def)
qed

text \<open>A positive definite matrix is factorised to the end: every pivot is the value of
  the quadratic form at a vector that is not zero.\<close>

lemma pivot_positive:
  assumes inv: "chol_inv A k m" and k: "k < rows A" and pd: "posdef A"
  shows "0 < coeff m k k - (\<Sum>j<k. coeff m k j * coeff m k j)"
proof -
  define n where "n = rows A"
  define x where "x = coeff m k k - (\<Sum>j<k. coeff m k j * coeff m k j)"
  have kn: "k < n"
    using k by (simp add: n_def)
  have mkk: "coeff m k k = coeff A k k"
    using inv by (simp add: chol_inv_def)
  have dpos: "0 < coeff m j j" if "j < k" for j
    using inv that by (simp add: chol_inv_def)
  have eq: "coeff A i j = (\<Sum>l\<le>j. coeff m i l * coeff m j l)" if "j < k" "j \<le> i" "i < n" for i j
    using inv that by (simp add: chol_inv_def n_def)
  have sym: "coeff A i j = coeff A j i" if "i < n" "j < n" for i j
    using pd that by (simp add: posdef_def symmetric_m_def n_def)
  define Lk where "Lk = m\<lparr>rows := k\<rparr>"
  define Bk where "Bk = \<lparr>rows = k, cols = 1, coeff = (\<lambda>r c. coeff m k r)\<rparr>"
  define u where "u j = coeff (solve_upper Lk k Bk) j 0" for j
  have "\<forall>r<rows Lk. coeff Lk r r \<noteq> 0"
    using dpos by (fastforce simp: Lk_def)
  from solve_upper_solves [OF this, of k Bk]
  have u: "(\<Sum>j = r..<k. coeff m j r * u j) = coeff m k r" if "r < k" for r
    using that by (simp add: Lk_def Bk_def u_def)
  define v where "v i = (if i < k then - u i else if i = k then 1 else 0)" for i
  define w where "w i l = (if l \<le> i then v i * coeff m i l else 0)" for i l
  have s0: "(\<Sum>i\<le>k. w i l) = 0" if l: "l < k" for l
  proof -
    have "(\<Sum>i\<le>k. w i l) = (\<Sum>i\<in>{..k} \<inter> {i. l \<le> i}. v i * coeff m i l)"
      unfolding w_def by (simp add: sum.inter_restrict)
    also have "{..k} \<inter> {i. l \<le> i} = insert k {l..<k}"
      using l by auto
    also have "(\<Sum>i\<in>insert k {l..<k}. v i * coeff m i l) =
                 v k * coeff m k l + (\<Sum>i = l..<k. v i * coeff m i l)"
      by simp
    also have "(\<Sum>i = l..<k. v i * coeff m i l) = - (\<Sum>i = l..<k. coeff m i l * u i)"
      unfolding sum_negf [symmetric] by (intro sum.cong refl) (simp add: v_def)
    also have "\<dots> = - coeff m k l"
      by (simp add: u [OF l])
    finally show ?thesis
      by (simp add: v_def)
  qed
  have entry: "v i * coeff A i j * v j =
                (\<Sum>l<k. w i l * w j l) + (if i = k \<and> j = k then x else 0)"
    if i: "i \<le> k" and j: "j \<le> k" for i j
  proof -
    have A: "coeff A i j = (\<Sum>l<k. if l \<le> i \<and> l \<le> j then coeff m i l * coeff m j l else 0) +
               (if i = k \<and> j = k then x else 0)"
    proof (cases "j < k \<and> j \<le> i")
      case True
      have "coeff A i j = (\<Sum>l\<le>j. coeff m i l * coeff m j l)"
        using True i kn by (intro eq) simp_all
      also have "\<dots> = (\<Sum>l\<in>{..<k} \<inter> {l. l \<le> i \<and> l \<le> j}. coeff m i l * coeff m j l)"
        using True by (intro sum.cong) auto
      also have "\<dots> = (\<Sum>l<k. if l \<le> i \<and> l \<le> j then coeff m i l * coeff m j l else 0)"
        by (simp add: sum.inter_restrict)
      finally show ?thesis
        using True by simp
    next
      case False
      show ?thesis
      proof (cases "i < k")
        case True
        with False have ij: "i \<le> j" by arith
        have "coeff A i j = coeff A j i"
          using i j kn by (intro sym) simp_all
        also have "\<dots> = (\<Sum>l\<le>i. coeff m j l * coeff m i l)"
          using True ij j kn by (intro eq) simp_all
        also have "\<dots> = (\<Sum>l\<in>{..<k} \<inter> {l. l \<le> i \<and> l \<le> j}. coeff m i l * coeff m j l)"
          using True ij by (intro sum.cong) (auto simp: mult.commute)
        also have "\<dots> = (\<Sum>l<k. if l \<le> i \<and> l \<le> j then coeff m i l * coeff m j l else 0)"
          by (simp add: sum.inter_restrict)
        finally show ?thesis
          using True by simp
      next
        case False
        with \<open>\<not> (j < k \<and> j \<le> i)\<close> i j have ik: "i = k" "j = k"
          by arith+
        have "(\<Sum>l<k. if l \<le> k \<and> l \<le> k then coeff m k l * coeff m k l else 0) =
                (\<Sum>l<k. coeff m k l * coeff m k l)"
          by (intro sum.cong refl) simp
        then show ?thesis
          using ik mkk by (simp add: x_def)
      qed
    qed
    have "v i * coeff A i j * v j =
            (\<Sum>l<k. v i * (if l \<le> i \<and> l \<le> j then coeff m i l * coeff m j l else 0) * v j) +
            v i * (if i = k \<and> j = k then x else 0) * v j"
      by (simp add: A distrib_left distrib_right sum_distrib_left sum_distrib_right)
    also have "(\<Sum>l<k. v i * (if l \<le> i \<and> l \<le> j then coeff m i l * coeff m j l else 0) * v j) =
                 (\<Sum>l<k. w i l * w j l)"
      by (intro sum.cong refl) (simp add: w_def)
    also have "v i * (if i = k \<and> j = k then x else 0) * v j = (if i = k \<and> j = k then x else 0)"
      by (simp add: v_def)
    finally show ?thesis .
  qed
  have "quad_form A v = (\<Sum>i<n. \<Sum>j<n. v i * coeff A i j * v j)"
    by (simp add: quad_form_def n_def)
  also have "\<dots> = (\<Sum>i\<le>k. \<Sum>j<n. v i * coeff A i j * v j)"
    using kn by (intro sum.mono_neutral_right) (auto simp: v_def)
  also have "\<dots> = (\<Sum>i\<le>k. \<Sum>j\<le>k. v i * coeff A i j * v j)"
    using kn by (intro sum.cong refl sum.mono_neutral_right) (auto simp: v_def)
  also have "\<dots> = (\<Sum>i\<le>k. \<Sum>j\<le>k. (\<Sum>l<k. w i l * w j l) + (if i = k \<and> j = k then x else 0))"
    by (intro sum.cong refl) (simp add: entry)
  also have "\<dots> = (\<Sum>i\<le>k. \<Sum>j\<le>k. \<Sum>l<k. w i l * w j l) +
                  (\<Sum>i\<le>k. \<Sum>j\<le>k. if i = k \<and> j = k then x else 0)"
    by (simp add: sum.distrib)
  also have "(\<Sum>i\<le>k. \<Sum>j\<le>k. if i = k \<and> j = k then x else 0) = x"
  proof -
    have "(\<Sum>i\<le>k. \<Sum>j\<le>k. if i = k \<and> j = k then x else 0) =
            (\<Sum>i\<le>k. if i = k then (\<Sum>j\<le>k. if j = k then x else 0) else 0)"
      by (intro sum.cong refl) simp
    then show ?thesis
      by (simp add: sum.delta)
  qed
  also have "(\<Sum>i\<le>k. \<Sum>j\<le>k. \<Sum>l<k. w i l * w j l) = (\<Sum>l<k. (\<Sum>i\<le>k. w i l) * (\<Sum>j\<le>k. w j l))"
  proof -
    have "(\<Sum>i\<le>k. \<Sum>j\<le>k. \<Sum>l<k. w i l * w j l) = (\<Sum>i\<le>k. \<Sum>l<k. \<Sum>j\<le>k. w i l * w j l)"
      by (intro sum.cong refl sum.swap)
    also have "\<dots> = (\<Sum>l<k. \<Sum>i\<le>k. \<Sum>j\<le>k. w i l * w j l)"
      by (rule sum.swap)
    also have "\<dots> = (\<Sum>l<k. (\<Sum>i\<le>k. w i l) * (\<Sum>j\<le>k. w j l))"
      by (simp add: sum_product)
    finally show ?thesis .
  qed
  also have "\<dots> = 0"
    by (simp add: s0)
  finally have "quad_form A v = x"
    by simp
  moreover have "0 < quad_form A v"
  proof -
    have "\<exists>i<rows A. v i \<noteq> 0"
      using k by (intro exI [of _ k]) (simp add: v_def)
    then show ?thesis
      using pd by (simp add: posdef_def)
  qed
  ultimately show ?thesis
    by (simp add: x_def)
qed

lemma posdef_run:
  assumes "chol_inv A k m" and "posdef A"
  shows "snd (llt_unblocked k m) = - 1"
  using assms
proof (induction k m rule: llt_unblocked.induct)
  case (1 k m)
  have rm: "rows m = rows A"
    using "1.prems"(1) by (simp add: chol_inv_def)
  show ?case
  proof (cases "k < rows m")
    case False
    then show ?thesis
      by (subst llt_unblocked.simps) simp
  next
    case True
    define x where "x = coeff m k k - (\<Sum>j<k. coeff m k j * coeff m k j)"
    define m' where "m' = m\<lparr>coeff := (\<lambda>i j.
               if i = k \<and> j = k then sqrt x
               else if k < i \<and> i < rows m \<and> j = k
               then (coeff m i k - (\<Sum>l<k. coeff m i l * coeff m k l)) / sqrt x
               else coeff m i j)\<rparr>"
    have unfold: "llt_unblocked k m = (if x \<le> 0 then (m, int k) else llt_unblocked (k + 1) m')"
      unfolding x_def m'_def using True
      by (subst llt_unblocked.simps [of k m]) (simp add: Let_def)
    have pos: "0 < x"
      unfolding x_def using "1.prems" True rm by (intro pivot_positive) simp_all
    have step: "chol_inv A (k + 1) m'"
      using "1.prems"(1) True rm by (intro chol_inv_step [OF _ _ x_def pos m'_def]) simp_all
    have nle: "\<not> x \<le> 0"
      using pos by simp
    have "snd (llt_unblocked (k + 1) m') = - 1"
      using "1.IH" [OF True x_def nle] step "1.prems"(2) unfolding m'_def by simp
    then show ?thesis
      using unfold nle by simp
  qed
qed

lemma posdef_llt_succeeds: "posdef A \<Longrightarrow> llt_succeeds A"
  unfolding llt_succeeds_def by (rule posdef_run [OF chol_inv_start])

section \<open>The inverse of the weighted Gram matrix\<close>

lemma xtgx_shape: "rows (xtgx x g) = cols x" "cols (xtgx x g) = cols x"
  by (simp_all add: xtgx_def mat_mul_def transpose_m_def)

lemma xtgx_coeff:
  assumes "rows x = length g"
  shows "coeff (xtgx x g) i j = (\<Sum>l<length g. coeff x l i * g ! l * coeff x l j)"
proof -
  have "(\<Sum>l2<length g. coeff x l2 i * (if l2 = l then g ! l2 else 0)) = coeff x l i * g ! l"
    if "l < length g" for l
  proof -
    have "(\<Sum>l2<length g. coeff x l2 i * (if l2 = l then g ! l2 else 0)) =
            (\<Sum>l2<length g. if l2 = l then coeff x l2 i * g ! l2 else 0)"
      by (intro sum.cong refl) auto
    then show ?thesis
      using that by (simp add: sum.delta)
  qed
  then show ?thesis
    using assms by (simp add: xtgx_def mat_mul_def transpose_m_def asDiagonal_def)
qed

lemma xtgx_symmetric:
  assumes "rows x = length g"
  shows "symmetric_m (xtgx x g)"
  unfolding symmetric_m_def xtgx_coeff [OF assms] xtgx_shape
  by (simp add: mult.commute mult.left_commute)

lemma invxtgx_exact_inverse:
  assumes "rows x = length g" and "llt_succeeds (xtgx x g)"
  shows "inverse_of (xtgx x g) (invxtgx_exact x g)"
  using llt_solve_inverse [OF xtgx_symmetric [OF assms(1)] assms(2)]
  by (simp add: invxtgx_exact_def xtgx_shape)

lemma inverse_of_shape:
  assumes "inverse_of A B"
  shows "cols A = rows A" "rows B = rows A" "cols B = rows A"
  using assms by (simp_all add: inverse_of_def)

lemma inverse_of_right:
  assumes "inverse_of A B" and "i < rows A" and "j < rows A"
  shows "(\<Sum>m<rows A. coeff A i m * coeff B m j) = (if i = j then 1 else 0)"
  using assms by (simp add: inverse_of_def)

lemma inverse_of_left:
  assumes "inverse_of A B" and "i < rows A" and "j < rows A"
  shows "(\<Sum>m<rows A. coeff B i m * coeff A m j) = (if i = j then 1 else 0)"
  using assms by (simp add: inverse_of_def)

lemma inverse_of_unique:
  assumes B: "inverse_of A B" and B': "inverse_of A B'" and i: "i < rows A" and j: "j < rows A"
  shows "coeff B i j = coeff B' i j"
proof -
  define n where "n = rows A"
  have i': "i < n" and j': "j < n"
    using i j by (simp_all add: n_def)
  have left: "(\<Sum>l<n. coeff B a l * coeff A l b) = (if a = b then 1 else 0)"
    if "a < n" "b < n" for a b
    using inverse_of_left [OF B] that by (simp add: n_def)
  have right: "(\<Sum>m<n. coeff A a m * coeff B' m b) = (if a = b then 1 else 0)"
    if "a < n" "b < n" for a b
    using inverse_of_right [OF B'] that by (simp add: n_def)
  have "coeff B i j = (\<Sum>l<n. if l = j then coeff B i l else 0)"
    using j' by (simp add: sum.delta)
  also have "\<dots> = (\<Sum>l<n. coeff B i l * (if l = j then 1 else 0))"
    by (intro sum.cong refl) auto
  also have "\<dots> = (\<Sum>l<n. coeff B i l * (\<Sum>m<n. coeff A l m * coeff B' m j))"
    using j' by (intro sum.cong refl) (simp only: right lessThan_iff)
  also have "\<dots> = (\<Sum>l<n. \<Sum>m<n. coeff B i l * coeff A l m * coeff B' m j)"
    by (simp add: sum_distrib_left mult.assoc)
  also have "\<dots> = (\<Sum>m<n. \<Sum>l<n. coeff B i l * coeff A l m * coeff B' m j)"
    by (rule sum.swap)
  also have "\<dots> = (\<Sum>m<n. (\<Sum>l<n. coeff B i l * coeff A l m) * coeff B' m j)"
    by (simp add: sum_distrib_right)
  also have "\<dots> = (\<Sum>m<n. (if i = m then 1 else 0) * coeff B' m j)"
    using i' by (intro sum.cong refl) (simp only: left lessThan_iff)
  also have "\<dots> = (\<Sum>m<n. if i = m then coeff B' m j else 0)"
    by (intro sum.cong refl) auto
  also have "\<dots> = coeff B' i j"
    using i' by (simp add: sum.delta')
  finally show ?thesis .
qed

lemma estimate_c_direct_coeff:
  fixes x y xtgxi :: mat
  assumes "rows x = length g"
  shows "coeff (estimate_c_direct x y g xtgxi) i j =
           (\<Sum>l<length g. (\<Sum>m<cols xtgxi. coeff xtgxi i m * coeff x l m) * g ! l * coeff y l j)"
proof -
  have "(\<Sum>l2<length g. (\<Sum>m<cols xtgxi. coeff xtgxi i m * coeff x l2 m) *
            (if l2 = l then g ! l2 else 0)) =
          (\<Sum>m<cols xtgxi. coeff xtgxi i m * coeff x l m) * g ! l"
    if "l < length g" for l
  proof -
    have "(\<Sum>l2<length g. (\<Sum>m<cols xtgxi. coeff xtgxi i m * coeff x l2 m) *
            (if l2 = l then g ! l2 else 0)) =
          (\<Sum>l2<length g. if l2 = l
             then (\<Sum>m<cols xtgxi. coeff xtgxi i m * coeff x l2 m) * g ! l2 else 0)"
      by (intro sum.cong refl) auto
    then show ?thesis
      using that by (simp add: sum.delta)
  qed
  then show ?thesis
    using assms by (simp add: estimate_c_direct_def mat_mul_def transpose_m_def asDiagonal_def)
qed

lemma estimate_c_direct_row_cong:
  fixes x y xi xi' :: mat
  assumes "rows x = length g" and "cols xi = cols xi'"
    and "\<forall>m<cols xi. coeff xi i m = coeff xi' i m"
  shows "row (estimate_c_direct x y g xi) i = row (estimate_c_direct x y g xi') i"
  using assms
  by (simp add: row_def shape_estimate_c_direct estimate_c_direct_coeff)

section \<open>Finite results\<close>

lemma posdef_pivots_nonzero:
  assumes "posdef A"
  shows "pivots_nonzero A"
proof -
  have "chol_inv A (rows A) (fst (llt_unblocked 0 A))"
    using assms by (intro llt_success_factor posdef_llt_succeeds)
  then have "\<forall>j<rows A. 0 < coeff (fst (llt_unblocked 0 A)) j j"
    by (simp add: chol_inv_def)
  then show ?thesis
    unfolding pivots_nonzero_def by fastforce
qed

lemma invxtgx_posdef:
  assumes "rows x = length g" and "posdef (xtgx x g)"
  shows "invxtgx x g = fin_m (invxtgx_exact x g)"
    and "inverse_of (xtgx x g) (invxtgx_exact x g)"
  using assms
  by (simp_all add: invxtgx_finite posdef_pivots_nonzero invxtgx_exact_inverse
      posdef_llt_succeeds)

lemma xtgx_weighted_gram:
  assumes "rows x = length g"
  shows "xtgx x g = weighted_gram x g"
proof -
  have "coeff (xtgx x g) = coeff (weighted_gram x g)"
    using assms by (intro ext) (simp add: xtgx_coeff weighted_gram_def)
  then show ?thesis
    by (simp add: xtgx_shape weighted_gram_def)
qed

lemma c_hat_spec_coeff:
  fixes x y xtgxi :: mat
  assumes "rows x = length g" and "cols xtgxi = cols x"
  shows "coeff (estimate_c_direct x y g xtgxi) i j = coeff (c_hat_spec x y g xtgxi) i j"
proof -
  have "(\<Sum>l<length g. (\<Sum>m<cols x. coeff xtgxi i m * coeff x l m) * g ! l * coeff y l j) =
          (\<Sum>l<length g. \<Sum>m<cols x. coeff xtgxi i m * coeff x l m * g ! l * coeff y l j)"
    by (simp add: sum_distrib_right)
  also have "\<dots> = (\<Sum>m<cols x. \<Sum>l<length g. coeff xtgxi i m * coeff x l m * g ! l * coeff y l j)"
    by (rule sum.swap)
  finally show ?thesis
    using assms by (simp add: estimate_c_direct_coeff c_hat_spec_def)
qed

section \<open>The example model, evaluated\<close>

lemmas mat_defs = mat_mul_def transpose_m_def asDiagonal_def Identity_def mat_sub_def
  xtgx_def row_def set_row_def diagonal_def


lemma sqrt16: "sqrt 16 = 4"
  by (rule real_sqrt_unique) simp_all

lemma ex_x_simps: "rows ex_x = 2" "cols ex_x = 1" "coeff ex_x 0 0 = 1" "coeff ex_x (Suc 0) 0 = 1"
  by (simp_all add: ex_x_def of_rows_def)

lemma ex_y_simps: "rows ex_y = 2" "cols ex_y = 4"
  "coeff ex_y i j = [[- 3, - 1, 1, - 1], [5, - 1, 1, - 1]] ! i ! j"
  by (simp_all add: ex_y_def of_rows_def)

lemma ex_c_simps: "rows ex_c = 1" "cols ex_c = 4" "coeff ex_c i j = [[1, 1, - 1, - 1]] ! i ! j"
  by (simp_all add: ex_c_def of_rows_def)






lemma less4: "j < 4 \<Longrightarrow> j = 0 \<or> j = Suc 0 \<or> j = Suc (Suc 0) \<or> j = Suc (Suc (Suc 0))" for j :: nat
  by arith



lemma ex_fields: "m_x ex_model = ex_x" "m_y ex_model = ex_y" "m_c ex_model = ex_c"
  "sint (m_ngenes ex_model) = 2" "sint (m_ncells ex_model) = 1" "sint (m_nsamples ex_model) = 4"
  by (simp_all add: ex_model_def)

lemma ex_row_c: "row ex_c 0 = [1, 1, - 1, - 1]"
  by (simp add: row_def ex_c_simps eval_nat_numeral)

lemma ex_stats:
  "std_spec [1, - 1, 1, - 1] = 1" "std_spec [1, 1, - 1, - 1] = 1"
  "cov_spec [1, 1, - 1, - 1] [1, - 1, 1, - 1] = 0"
  "mean_spec [1, - 1, 1, - 1] = 0" "mean_spec [1, 1, - 1, - 1] = 0"
  by (simp_all add: std_spec_def cov_spec_def mean_spec_def eval_nat_numeral)



lemma ex_consistent: "consistent ex_model [a, b]"
  by (simp add: consistent_def ex_fields ex_x_simps ex_y_simps ex_c_simps)

lemma stat_spec_returns: "stat_returns stat_spec"
  by (auto simp: stat_returns_def stat_spec_def split: option.splits)

lemma neg_xtgx: "rows (xtgx ex_x [- 2, - 2]) = 1" "cols (xtgx ex_x [- 2, - 2]) = 1"
  "coeff (xtgx ex_x [- 2, - 2]) 0 0 = - 4"
  by (simp_all add: mat_defs ex_x_simps eval_nat_numeral)

lemma neg_llt: "llt_unblocked 0 (xtgx ex_x [- 2, - 2]) = (xtgx ex_x [- 2, - 2], 0)"
  by (simp add: llt_unblocked.simps [of 0] neg_xtgx)

lemma neg_llt_fails: "\<not> llt_succeeds (xtgx ex_x [- 2, - 2])"
  by (simp add: llt_succeeds_def neg_llt)

lemma neg_not_posdef: "\<not> posdef (xtgx ex_x [- 2, - 2])"
proof
  assume "posdef (xtgx ex_x [- 2, - 2])"
  then have "0 < quad_form (xtgx ex_x [- 2, - 2]) (\<lambda>i. 1)"
    unfolding posdef_def by (auto simp: neg_xtgx)
  then show False
    by (simp add: quad_form_def neg_xtgx)
qed

lemma neg_xi: "coeff (invxtgx_exact ex_x [- 2, - 2]) 0 0 = 1 / 16"
  by (simp add: invxtgx_exact_def llt_solve_exact_def neg_llt solve_lower.simps neg_xtgx
      Identity_def ex_x_simps eval_nat_numeral Let_def)

lemma neg_xi_fin: "invxtgx ex_x [- 2, - 2] = fin_m (invxtgx_exact ex_x [- 2, - 2])"
  by (intro invxtgx_finite) (simp add: pivots_nonzero_def neg_llt neg_xtgx)

lemma neg_c_hat_coeff:
  assumes "j < 4"
  shows "coeff (estimate_c_direct ex_x ex_y [- 2, - 2] (invxtgx_exact ex_x [- 2, - 2])) 0 j =
           [- (1 / 4), 1 / 4, - (1 / 4), 1 / 4] ! j"
  using less4 [OF assms]
  by (auto simp: estimate_c_direct_def mat_mul_def transpose_m_def asDiagonal_def shape_invxtgx_exact
      neg_xi ex_x_simps ex_y_simps eval_nat_numeral)

lemma neg_c_hat:
  "row (estimate_c_direct ex_x ex_y [- 2, - 2] (invxtgx_exact ex_x [- 2, - 2])) 0 =
     [- (1 / 4), 1 / 4, - (1 / 4), 1 / 4]"
  by (simp add: row_def shape_estimate_c_direct ex_y_simps neg_c_hat_coeff eval_nat_numeral)

lemma neg_c_hat_fin:
  "estimate_c_direct (fin_m ex_x) (fin_m ex_y) [Fin (- 2), Fin (- 2)]
     (fin_m (invxtgx_exact ex_x [- 2, - 2])) =
     fin_m (estimate_c_direct ex_x ex_y [- 2, - 2] (invxtgx_exact ex_x [- 2, - 2]))"
  using fin_estimate_c_direct [of ex_x "[- 2, - 2]" ex_y "invxtgx_exact ex_x [- 2, - 2]"]
  by (simp add: ex_x_simps)

lemma neg_stats:
  "std_spec [- (1 / 4), 1 / 4, - (1 / 4), 1 / 4] = 1 / 4"
  "cov_spec [1, 1, - 1, - 1] [- (1 / 4), 1 / 4, - (1 / 4), 1 / 4] = 0"
  "mean_spec [- (1 / 4), 1 / 4, - (1 / 4), 1 / 4] = 0"
  by (simp_all add: std_spec_def cov_spec_def mean_spec_def eval_nat_numeral real_sqrt_divide sqrt16)

lemma neg_A_row:
  "A_row stat_spec ex_model
     (fin_m (estimate_c_direct ex_x ex_y [- 2, - 2] (invxtgx_exact ex_x [- 2, - 2]))) 0 =
     Inr [Fin (- 1), Fin (- 1), Fin 1, Fin 1]"
  by (simp add: A_row_def stat_spec_def ex_fields fin_row neg_c_hat ex_row_c ex_stats neg_stats
      Let_def shape_estimate_c_direct ex_y_simps neg_c_hat_coeff ex_c_simps eval_nat_numeral
      fin_m_simps mean_def dbl_defs)

lemma neg_evaluate:
  "evaluate stat_spec ex_model [- 2, - 2] (invxtgx (m_x ex_model) [- 2, - 2]) = Inr (Fin 0)"
  by (simp add: evaluate_def Let_def ex_fields neg_xi_fin neg_c_hat_fin shape_invxtgx_exact
      shape_estimate_c_direct ex_x_simps ex_y_simps evaluate_loop.simps stat_spec_def
      cor_spec_def fin_row fin_m_simps neg_c_hat ex_row_c ex_stats neg_stats dbl_defs)

lemma neg_grad: "grad stat_spec ex_model [] [- 2, - 2] = Inr [Fin 0, Fin (- (1 / 4))]"
  by (simp add: grad_def grad_explicit_inverse_def Let_def ex_fields neg_c_hat_fin
      shape_estimate_c_direct shape_invxtgx_exact ex_x_simps ex_y_simps A_loop.simps neg_A_row
      set_row_def clampPos_eq_map diagonal_def mat_mul_def mat_sub_def transpose_m_def
      asDiagonal_def neg_xi_fin neg_xi fin_m_simps dbl_defs eval_nat_numeral)

text \<open>
  With the weights \<open>[0, 0]\<close> the Gram matrix of the example model is \<open>[[0]]\<close>: the
  factorisation stops at the first pivot and leaves the zero on the diagonal, the solve
  divides by it, and the model determines neither the score nor an entry of the gradient.
\<close>

lemma zero_xtgx: "rows (xtgx ex_x [0, 0]) = 1" "cols (xtgx ex_x [0, 0]) = 1"
  "coeff (xtgx ex_x [0, 0]) 0 0 = 0"
  by (simp_all add: mat_defs ex_x_simps eval_nat_numeral)

lemma zero_llt: "llt_unblocked 0 (xtgx ex_x [0, 0]) = (xtgx ex_x [0, 0], 0)"
  by (simp add: llt_unblocked.simps [of 0] zero_xtgx)

lemma zero_xi: "coeff (invxtgx ex_x [0, 0]) 0 0 = Undet"
  by (simp add: invxtgx_xtgx llt_solve_def zero_llt solve_lower.simps zero_xtgx fin_m_simps
      Identity_def ex_x_simps eval_nat_numeral Let_def dbl_defs)

lemma zero_c_hat:
  "row (estimate_c_direct (fin_m ex_x) (fin_m ex_y) [Fin 0, Fin 0] (invxtgx ex_x [0, 0])) 0 =
     [Undet, Undet, Undet, Undet]"
  by (simp add: estimate_c_direct_def mat_mul_def transpose_m_def asDiagonal_def row_def
      shape_invxtgx zero_xi fin_m_simps ex_x_simps ex_y_simps eval_nat_numeral dbl_defs)

lemma zero_c_hat_coeff:
  assumes "j < 4"
  shows "coeff (estimate_c_direct (fin_m ex_x) (fin_m ex_y) [Fin 0, Fin 0]
                  (invxtgx ex_x [0, 0])) 0 j = Undet"
  using less4 [OF assms]
  by (auto simp: estimate_c_direct_def mat_mul_def transpose_m_def asDiagonal_def
      shape_invxtgx zero_xi fin_m_simps ex_x_simps ex_y_simps eval_nat_numeral dbl_defs)

lemma zero_A_row:
  "A_row stat_spec ex_model
     (estimate_c_direct (fin_m ex_x) (fin_m ex_y) [Fin 0, Fin 0] (invxtgx ex_x [0, 0])) 0 =
     Inr [Undet, Undet, Undet, Undet]"
  by (simp add: A_row_def stat_spec_def ex_fields fin_row zero_c_hat ex_row_c ex_stats
      Let_def shape_estimate_c_direct ex_y_simps zero_c_hat_coeff ex_c_simps
      eval_nat_numeral fin_m_simps mean_def dbl_defs)

lemma zero_evaluate:
  "evaluate stat_spec ex_model [0, 0] (invxtgx (m_x ex_model) [0, 0]) = Inr Undet"
  by (simp add: evaluate_def Let_def ex_fields shape_invxtgx
      shape_estimate_c_direct ex_x_simps ex_y_simps evaluate_loop.simps stat_spec_def
      fin_row fin_m_simps zero_c_hat ex_row_c dbl_defs)

lemma zero_grad: "grad stat_spec ex_model [] [0, 0] = Inr [Undet, Undet]"
  by (simp add: grad_def grad_explicit_inverse_def Let_def ex_fields
      shape_estimate_c_direct shape_invxtgx ex_x_simps ex_y_simps A_loop.simps zero_A_row
      set_row_def clampPos_eq_map diagonal_def mat_mul_def mat_sub_def transpose_m_def
      asDiagonal_def zero_xi fin_m_simps dbl_defs eval_nat_numeral)

section \<open>The clamp of the gradient\<close>


















section \<open>The solve on a matrix that is not positive definite\<close>

lemma neg_not_inverse:
  "coeff (mat_mul (fin_m (xtgx ex_x [- 2, - 2])) (invxtgx ex_x [- 2, - 2])) 0 0 =
     Fin (- (1 / 4))"
  by (simp add: mat_mul_def [of "fin_m (xtgx ex_x [- 2, - 2])"] fin_m_simps neg_xtgx neg_xi_fin
      neg_xi dbl_defs)

text \<open>
  C4, as amended. The solve raises no error, whatever \<open>g\<close> is: \<open>invxtgx\<close> returns
  the square matrix that the triangular solves leave, with no look at the outcome of
  the factorisation, and \<open>evaluate\<close> on that matrix and \<open>grad\<close> return normally whenever the dimensions
  fit and the statistics helpers return.
\<close>

theorem solve_raises_no_error:
  "rows (invxtgx (m_x M) g) = cols (m_x M) \<and> cols (invxtgx (m_x M) g) = cols (m_x M) \<and>
   (cor_returns S \<and> consistent M g \<longrightarrow> (\<exists>r. evaluate S M g (invxtgx (m_x M) g) = Inr r)) \<and>
   (stat_returns S \<and> consistent M g \<longrightarrow>
      (\<exists>gr'. grad S M gr g = Inr gr' \<and> length gr' = length g))"
  using evaluate_returns [of S M g] grad_returns [of S M g gr]
  by (simp add: shape_invxtgx consistent_def)

theorem solve_raises_no_error_witness:
  "\<not> posdef (xtgx (m_x ex_model) [- 2, - 2]) \<and>
   stat_returns stat_spec \<and> consistent ex_model [- 2, - 2] \<and>
   (\<exists>gr'. grad stat_spec ex_model [] [- 2, - 2] = Inr gr' \<and> length gr' = 2)"
  using solve_raises_no_error [of ex_model "[- 2, - 2]" stat_spec "[]"]
    stat_spec_returns ex_consistent [of "- 2" "- 2"] neg_not_posdef
  by (simp add: ex_fields numeral_2_eq_2)

text \<open>
  C4 as stated asks for an error when \<open>X\<^sup>T diag(g) X\<close> is not positive definite. With
  the weights \<open>[-2, -2]\<close> the Gram matrix of the example model is \<open>[[-4]]\<close>, the
  factorisation fails, the matrix returned is not the inverse, and both \<open>evaluate\<close> and
  \<open>grad\<close> return a value.
\<close>

theorem not_posdef_no_error:
  "\<not> posdef (xtgx (m_x ex_model) [- 2, - 2]) \<and>
   \<not> llt_succeeds (xtgx (m_x ex_model) [- 2, - 2]) \<and>
   coeff (mat_mul (fin_m (xtgx (m_x ex_model) [- 2, - 2]))
            (invxtgx (m_x ex_model) [- 2, - 2])) 0 0 \<noteq> Fin 1 \<and>
   evaluate stat_spec ex_model [- 2, - 2] (invxtgx (m_x ex_model) [- 2, - 2]) = Inr (Fin 0) \<and>
   grad stat_spec ex_model [] [- 2, - 2] = Inr [Fin 0, Fin (- (1 / 4))]"
  using neg_not_posdef neg_llt_fails neg_not_inverse neg_evaluate neg_grad
  by (simp add: ex_fields)

section \<open>The score\<close>

text \<open>
  C1. Let \<open>g\<close> have one weight for each gene, let the weighted Gram matrix
  \<open>X\<^sup>T diag(g) X\<close> be positive definite, let \<open>xtgxi\<close> be its inverse and
  \<open>c_hat = xtgxi X\<^sup>T diag(g) Y\<close>, both written out coefficient by coefficient, and let
  the correlation of row \<open>i\<close> of \<open>C\<close> with row \<open>i\<close> of \<open>c_hat\<close> exist for every cell
  type \<open>i\<close> (no degenerate row), with value \<open>rho i\<close>. Then the matrix that \<open>invxtgx\<close>
  computes for \<open>g\<close> is \<open>xtgxi\<close>, the rows of the estimate that
  \<open>estimate_c_direct\<close> computes from it are the rows of \<open>c_hat\<close>, and \<open>evaluate\<close>
  returns \<open>-(1/ncells) * \<Sum>i. rho i\<close>.
\<close>

theorem evaluate_score:
  assumes "consistent M g" and "0 < cols (m_x M)"
    and "posdef (weighted_gram (m_x M) g)"
    and "inverse_of (weighted_gram (m_x M) g) xtgxi"
    and "\<forall>i<cols (m_x M).
           stat_cor S (map Fin (row (m_c M) i))
             (map Fin (row (c_hat_spec (m_x M) (m_y M) g xtgxi) i)) = Inr (Fin (rho i))"
  shows "(\<forall>i<cols (m_x M). \<forall>j<cols (m_x M).
            coeff (invxtgx (m_x M) g) i j = Fin (coeff xtgxi i j)) \<and>
         (\<forall>i<cols (m_x M).
            row (estimate_c_direct (fin_m (m_x M)) (fin_m (m_y M)) (map Fin g)
                   (invxtgx (m_x M) g)) i =
              map Fin (row (c_hat_spec (m_x M) (m_y M) g xtgxi) i)) \<and>
         evaluate S M g (invxtgx (m_x M) g) =
           Inr (Fin (- (1 / real (cols (m_x M))) * (\<Sum>i<cols (m_x M). rho i)))"
proof -
  define k where "k = cols (m_x M)"
  define xi where "xi = invxtgx_exact (m_x M) g"
  let ?c = "estimate_c_direct (fin_m (m_x M)) (fin_m (m_y M)) (map Fin g) (invxtgx (m_x M) g)"
  have rx: "rows (m_x M) = length g" and nc: "sint (m_ncells M) = int k"
    using assms(1) by (simp_all add: consistent_def k_def)
  have gram: "xtgx (m_x M) g = weighted_gram (m_x M) g"
    using rx by (rule xtgx_weighted_gram)
  have pd: "posdef (xtgx (m_x M) g)" and inv': "inverse_of (xtgx (m_x M) g) xtgxi"
    using assms(3,4) by (simp_all add: gram)
  have fin: "invxtgx (m_x M) g = fin_m xi" and inv: "inverse_of (xtgx (m_x M) g) xi"
    unfolding xi_def using invxtgx_posdef [OF rx pd] by simp_all
  have shape: "cols xi = k" "cols xtgxi = k"
    using inv' by (simp_all add: xi_def shape_invxtgx_exact inverse_of_def xtgx_shape k_def)
  have coeffs: "coeff xi i j = coeff xtgxi i j" if "i < k" "j < k" for i j
    using inverse_of_unique [OF inv inv'] that by (simp add: xtgx_shape k_def)
  have c: "?c = fin_m (estimate_c_direct (m_x M) (m_y M) g xi)"
    using rx by (simp add: fin fin_estimate_c_direct)
  have same: "row (estimate_c_direct (m_x M) (m_y M) g xi) i =
              row (c_hat_spec (m_x M) (m_y M) g xtgxi) i" if "i < k" for i
  proof -
    have "row (estimate_c_direct (m_x M) (m_y M) g xi) i =
          row (estimate_c_direct (m_x M) (m_y M) g xtgxi) i"
      using coeffs that by (intro estimate_c_direct_row_cong [OF rx]) (simp_all add: shape)
    also have "\<dots> = row (c_hat_spec (m_x M) (m_y M) g xtgxi) i"
      using rx shape(2) c_hat_spec_coeff [of "m_x M" g xtgxi "m_y M" i]
      by (simp add: row_def shape_estimate_c_direct c_hat_spec_def k_def)
    finally show ?thesis .
  qed
  have rows: "row ?c i = map Fin (row (c_hat_spec (m_x M) (m_y M) g xtgxi) i)" if "i < k" for i
    using same [OF that] by (simp add: c fin_row)
  have "\<forall>i. 0 \<le> i \<and> int i < sint (m_ncells M) \<longrightarrow>
          stat_cor S (row (fin_m (m_c M)) i) (row ?c i) = Inr (Fin (rho i))"
    using assms(5) rows by (simp add: nc k_def fin_row)
  from evaluate_loop_Inr [OF this, of "Fin 0"]
  have "evaluate S M g (invxtgx (m_x M) g) =
          Inr ((Fin 0 - (\<Sum>i = 0..<k. Fin (rho i))) / Fin (real k))"
    by (simp add: evaluate_unfold [OF assms(1)] nc k_def)
  also have "(Fin 0 - (\<Sum>i = 0..<k. Fin (rho i))) / Fin (real k) =
               Fin (- (1 / real k) * (\<Sum>i<k. rho i))"
    using assms(2) by (simp add: sum_Fin dbl_defs k_def atLeast0LessThan)
  finally show ?thesis
    using coeffs rows by (simp add: k_def fin fin_m_simps)
qed

section \<open>Relabelling the cell types\<close>

lemma is_perm_bij:
  assumes "is_perm k p"
  shows "bij_betw ((!) p) {..<k} {..<k}"
proof -
  have d: "distinct p" and l: "length p = k" and s: "set p \<subseteq> {..<k}"
    using assms by (auto simp: is_perm_def)
  have "card (set p) = k"
    using d l by (simp add: distinct_card)
  then have sp: "set p = {..<k}"
    using s by (intro card_subset_eq) simp_all
  show ?thesis
    by (rule bij_betw_nth [OF d]) (simp_all add: l sp)
qed

lemma is_perm_sum:
  fixes f :: "nat \<Rightarrow> 'a::comm_monoid_add"
  assumes "is_perm k p"
  shows "(\<Sum>m<k. f (p ! m)) = (\<Sum>m<k. f m)"
  by (rule sum.reindex_bij_betw [OF is_perm_bij [OF assms]])

lemma is_perm_lt: "is_perm k p \<Longrightarrow> i < k \<Longrightarrow> p ! i < k"
  by (auto simp: is_perm_def)

lemma is_perm_inj: "is_perm k p \<Longrightarrow> i < k \<Longrightarrow> j < k \<Longrightarrow> p ! i = p ! j \<longleftrightarrow> i = j"
  by (auto simp: is_perm_def nth_eq_iff_index_eq)

lemma is_perm_all:
  assumes "is_perm k p"
  shows "(\<forall>i<k. P (p ! i)) \<longleftrightarrow> (\<forall>i<k. P i)"
proof
  assume "\<forall>i<k. P i"
  then show "\<forall>i<k. P (p ! i)"
    using is_perm_lt [OF assms] by blast
next
  assume a: "\<forall>i<k. P (p ! i)"
  show "\<forall>i<k. P i"
  proof (intro allI impI)
    fix i assume "i < k"
    then have "i \<in> (!) p ` {..<k}"
      using is_perm_bij [OF assms] by (simp add: bij_betw_def)
    then show "P i"
      using a by auto
  qed
qed

lemma evaluate_characterised:
  assumes "consistent M g"
  shows "evaluate S M g (invxtgx (m_x M) g) = Inr r \<longleftrightarrow>
           (\<forall>i<cols (m_x M). \<not> isl (stat_cor S (row (fin_m (m_c M)) i)
               (row (estimate_c_direct (fin_m (m_x M)) (fin_m (m_y M)) (map Fin g)
                       (invxtgx (m_x M) g)) i))) \<and>
           r = (Fin 0 - (\<Sum>i<cols (m_x M). projr (stat_cor S (row (fin_m (m_c M)) i)
               (row (estimate_c_direct (fin_m (m_x M)) (fin_m (m_y M)) (map Fin g)
                       (invxtgx (m_x M) g)) i))))
               / Fin (real (cols (m_x M)))"
proof -
  define k where "k = cols (m_x M)"
  define c_hat where
    "c_hat = estimate_c_direct (fin_m (m_x M)) (fin_m (m_y M)) (map Fin g) (invxtgx (m_x M) g)"
  define F where "F i = stat_cor S (row (fin_m (m_c M)) i) (row c_hat i)" for i
  have nc: "sint (m_ncells M) = int k"
    using assms by (simp add: consistent_def k_def)
  have unfold: "evaluate S M g (invxtgx (m_x M) g) =
      (case evaluate_loop S M c_hat 0 (Fin 0) of
         Inl e \<Rightarrow> Inl e | Inr res \<Rightarrow> Inr (res / Fin (real k)))"
    unfolding c_hat_def k_def by (rule evaluate_unfold [OF assms])
  show ?thesis
    unfolding k_def [symmetric] c_hat_def [symmetric] F_def [symmetric]
  proof (cases "\<forall>i<k. \<not> isl (F i)")
    case True
    then have "\<forall>i. 0 \<le> i \<and> int i < sint (m_ncells M) \<longrightarrow>
                 stat_cor S (row (fin_m (m_c M)) i) (row c_hat i) = Inr (projr (F i))"
      by (simp add: nc F_def)
    from evaluate_loop_Inr [OF this, of "Fin 0"]
    have "evaluate S M g (invxtgx (m_x M) g) =
            Inr ((Fin 0 - (\<Sum>i<k. projr (F i))) / Fin (real k))"
      by (simp add: unfold nc atLeast0LessThan)
    then show "evaluate S M g (invxtgx (m_x M) g) = Inr r \<longleftrightarrow>
        (\<forall>i<k. \<not> isl (F i)) \<and> r = (Fin 0 - (\<Sum>i<k. projr (F i))) / Fin (real k)"
      using True by auto
  next
    case False
    then obtain i where i: "i < k" "isl (F i)"
      by blast
    have "isl (evaluate_loop S M c_hat 0 (Fin 0))"
      using i by (intro evaluate_loop_Inl [of 0 i]) (simp_all add: nc F_def)
    then have "isl (evaluate S M g (invxtgx (m_x M) g))"
      by (auto simp: unfold split: sum.splits)
    then show "evaluate S M g (invxtgx (m_x M) g) = Inr r \<longleftrightarrow>
        (\<forall>i<k. \<not> isl (F i)) \<and> r = (Fin 0 - (\<Sum>i<k. projr (F i))) / Fin (real k)"
      using False by auto
  qed
qed

lemma permute_shape:
  "rows (permute_cols p A) = rows A" "cols (permute_cols p A) = cols A"
  "rows (permute_rows p A) = rows A" "cols (permute_rows p A) = cols A"
  "coeff (permute_cols p A) i j = coeff A i (p ! j)"
  "coeff (permute_rows p A) i j = coeff A (p ! i) j"
  by (simp_all add: permute_cols_def permute_rows_def)

lemma permuted_inverse:
  assumes p: "is_perm (rows A) p" and inv: "inverse_of A B"
    and A': "rows A' = rows A" "cols A' = rows A"
      "\<And>i j. i < rows A \<Longrightarrow> j < rows A \<Longrightarrow> coeff A' i j = coeff A (p ! i) (p ! j)"
  shows "inverse_of A' (permute_cols p (permute_rows p B))"
proof -
  define k where "k = rows A"
  have pk: "is_perm k p"
    using p by (simp add: k_def)
  have r: "(\<Sum>m<k. coeff A' i m * coeff B (p ! m) (p ! j)) = (if i = j then 1 else 0)"
    if "i < k" "j < k" for i j
  proof -
    have "(\<Sum>m<k. coeff A' i m * coeff B (p ! m) (p ! j)) =
            (\<Sum>m<k. coeff A (p ! i) (p ! m) * coeff B (p ! m) (p ! j))"
      using that by (intro sum.cong refl) (simp add: A'(3) k_def)
    also have "\<dots> = (\<Sum>m<k. coeff A (p ! i) m * coeff B m (p ! j))"
      by (rule is_perm_sum [OF pk, of "\<lambda>m. coeff A (p ! i) m * coeff B m (p ! j)"])
    also have "\<dots> = (if p ! i = p ! j then 1 else 0)"
      using inverse_of_right [OF inv, of "p ! i" "p ! j"] is_perm_lt [OF pk] that
      by (simp add: k_def)
    finally show ?thesis
      using is_perm_inj [OF pk that] by simp
  qed
  have l: "(\<Sum>m<k. coeff B (p ! i) (p ! m) * coeff A' m j) = (if i = j then 1 else 0)"
    if "i < k" "j < k" for i j
  proof -
    have "(\<Sum>m<k. coeff B (p ! i) (p ! m) * coeff A' m j) =
            (\<Sum>m<k. coeff B (p ! i) (p ! m) * coeff A (p ! m) (p ! j))"
      using that by (intro sum.cong refl) (simp add: A'(3) k_def)
    also have "\<dots> = (\<Sum>m<k. coeff B (p ! i) m * coeff A m (p ! j))"
      by (rule is_perm_sum [OF pk, of "\<lambda>m. coeff B (p ! i) m * coeff A m (p ! j)"])
    also have "\<dots> = (if p ! i = p ! j then 1 else 0)"
      using inverse_of_left [OF inv, of "p ! i" "p ! j"] is_perm_lt [OF pk] that
      by (simp add: k_def)
    finally show ?thesis
      using is_perm_inj [OF pk that] by simp
  qed
  show ?thesis
    unfolding inverse_of_def
    using A'(1,2) inverse_of_shape [OF inv] r l
    by (simp add: permute_shape mat_mul_def k_def)
qed

lemma posdef_permuted:
  assumes pd: "posdef A" and p: "is_perm (rows A) p"
    and A': "rows A' = rows A" "cols A' = rows A"
      "\<And>i j. i < rows A \<Longrightarrow> j < rows A \<Longrightarrow> coeff A' i j = coeff A (p ! i) (p ! j)"
  shows "posdef A'"
proof -
  define k where "k = rows A"
  have pk: "is_perm k p"
    using p by (simp add: k_def)
  have sym: "coeff A i j = coeff A j i" if "i < k" "j < k" for i j
    using pd that by (simp add: posdef_def symmetric_m_def k_def)
  have "symmetric_m A'"
    unfolding symmetric_m_def using A' sym is_perm_lt [OF pk] by (simp add: k_def)
  moreover have "0 < quad_form A' v" if "\<exists>i<rows A'. v i \<noteq> 0" for v
  proof -
    define q where "q = the_inv_into {..<k} ((!) p)"
    define w where "w a = v (q a)" for a
    have inj: "inj_on ((!) p) {..<k}"
      using is_perm_bij [OF pk] by (simp add: bij_betw_def)
    have wv: "w (p ! i) = v i" if "i < k" for i
      using that by (simp add: w_def q_def the_inv_into_f_f [OF inj])
    have "quad_form A' v = (\<Sum>i<k. \<Sum>j<k. w (p ! i) * coeff A (p ! i) (p ! j) * w (p ! j))"
      unfolding quad_form_def A'(1) k_def [symmetric]
      by (intro sum.cong refl) (simp add: wv A'(3) k_def)
    also have "\<dots> = (\<Sum>i<k. \<Sum>j<k. w (p ! i) * coeff A (p ! i) j * w j)"
      by (intro sum.cong refl is_perm_sum [OF pk, of "\<lambda>j. w (p ! i) * coeff A (p ! i) j * w j" for i])
    also have "\<dots> = (\<Sum>i<k. \<Sum>j<k. w i * coeff A i j * w j)"
      by (rule is_perm_sum [OF pk, of "\<lambda>i. \<Sum>j<k. w i * coeff A i j * w j"])
    finally have "quad_form A' v = quad_form A w"
      by (simp add: quad_form_def k_def)
    moreover have "\<exists>a<rows A. w a \<noteq> 0"
    proof -
      from that obtain i where i: "i < k" "v i \<noteq> 0"
        using A'(1) by (auto simp: k_def)
      then have "p ! i < k" "w (p ! i) \<noteq> 0"
        using is_perm_lt [OF pk] wv by simp_all
      then show ?thesis
        unfolding k_def by blast
    qed
    ultimately show ?thesis
      using pd by (simp add: posdef_def)
  qed
  ultimately show ?thesis
    by (simp add: posdef_def)
qed

lemma posdef_xtgx_permuted:
  assumes "posdef (xtgx x g)" and "is_perm (cols x) p" and "rows x = length g"
  shows "posdef (xtgx (permute_cols p x) g)"
proof (rule posdef_permuted [OF assms(1)])
  show "is_perm (rows (xtgx x g)) p"
    using assms(2) by (simp add: xtgx_shape)
  show "rows (xtgx (permute_cols p x) g) = rows (xtgx x g)"
       "cols (xtgx (permute_cols p x) g) = rows (xtgx x g)"
    by (simp_all add: xtgx_shape permute_shape)
  show "coeff (xtgx (permute_cols p x) g) i j = coeff (xtgx x g) (p ! i) (p ! j)" for i j
    using assms(3) by (simp add: xtgx_coeff permute_shape)
qed

lemma relabel_consistent: "consistent M g \<Longrightarrow> consistent (relabel p M) g"
  by (simp add: consistent_def relabel_def permute_shape)

lemma relabel_c_hat:
  assumes con: "consistent M g" and p: "is_perm (cols (m_x M)) p"
    and ok: "llt_succeeds (xtgx (m_x M) g)"
    and ok': "llt_succeeds (xtgx (permute_cols p (m_x M)) g)"
    and i: "i < cols (m_x M)"
  shows "row (estimate_c_direct (permute_cols p (m_x M)) (m_y M) g
                (invxtgx_exact (permute_cols p (m_x M)) g)) i =
         row (estimate_c_direct (m_x M) (m_y M) g (invxtgx_exact (m_x M) g)) (p ! i)"
proof -
  define X where "X = m_x M"
  define X' where "X' = permute_cols p X"
  define k where "k = cols X"
  define xi where "xi = invxtgx_exact X g"
  define xi' where "xi' = invxtgx_exact X' g"
  have rx: "rows X = length g" "rows X' = length g" and cx: "cols X' = k"
    using con by (simp_all add: consistent_def X_def X'_def k_def permute_shape)
  have pk: "is_perm k p" and ik: "i < k"
    using p i by (simp_all add: X_def k_def)
  have inv: "inverse_of (xtgx X g) xi"
    unfolding xi_def using rx(1) ok by (intro invxtgx_exact_inverse) (simp_all add: X_def)
  have inv': "inverse_of (xtgx X' g) xi'"
    unfolding xi'_def using rx(2) ok' by (intro invxtgx_exact_inverse) (simp_all add: X'_def X_def)
  have "inverse_of (xtgx X' g) (permute_cols p (permute_rows p xi))"
  proof (rule permuted_inverse [OF _ inv])
    show "is_perm (rows (xtgx X g)) p"
      using pk by (simp add: xtgx_shape k_def)
    show "rows (xtgx X' g) = rows (xtgx X g)" "cols (xtgx X' g) = rows (xtgx X g)"
      using cx by (simp_all add: xtgx_shape k_def)
    show "coeff (xtgx X' g) a b = coeff (xtgx X g) (p ! a) (p ! b)" for a b
      by (simp add: xtgx_coeff rx X'_def permute_shape)
  qed
  from inverse_of_unique [OF inv' this]
  have xi': "coeff xi' a b = coeff xi (p ! a) (p ! b)" if "a < k" "b < k" for a b
    using that cx by (simp add: xtgx_shape permute_shape)
  have sh: "cols xi = k" "cols xi' = k"
    using cx by (simp_all add: xi_def xi'_def shape_invxtgx_exact k_def)
  have "coeff (estimate_c_direct X' (m_y M) g xi') i j =
        coeff (estimate_c_direct X (m_y M) g xi) (p ! i) j" for j
  proof -
    have "(\<Sum>m<k. coeff xi' i m * coeff X' l m) = (\<Sum>m<k. coeff xi (p ! i) m * coeff X l m)"
      for l
    proof -
      have "(\<Sum>m<k. coeff xi' i m * coeff X' l m) =
              (\<Sum>m<k. coeff xi (p ! i) (p ! m) * coeff X l (p ! m))"
        using ik by (intro sum.cong refl) (simp add: xi' X'_def permute_shape)
      also have "\<dots> = (\<Sum>m<k. coeff xi (p ! i) m * coeff X l m)"
        by (rule is_perm_sum [OF pk, of "\<lambda>m. coeff xi (p ! i) m * coeff X l m"])
      finally show ?thesis .
    qed
    then show ?thesis
      by (simp add: estimate_c_direct_coeff rx sh)
  qed
  then show ?thesis
    by (simp add: row_def shape_estimate_c_direct X_def [symmetric] X'_def [symmetric]
        xi_def [symmetric] xi'_def [symmetric])
qed

text \<open>
  C5, as amended. The score does not change when the columns of \<open>X\<close> and the rows of
  \<open>C\<close> are permuted by the same permutation of the cell types, the weighted Gram
  matrix being positive definite: \<open>evaluate\<close> returns the score \<open>r\<close> for
  the relabelled model exactly when it returns \<open>r\<close> for the original one.
\<close>

theorem evaluate_relabel_invariant:
  assumes con: "consistent M g" and p: "is_perm (cols (m_x M)) p"
    and pd: "posdef (xtgx (m_x M) g)"
  shows "evaluate S (relabel p M) g (invxtgx (m_x (relabel p M)) g) = Inr r \<longleftrightarrow>
         evaluate S M g (invxtgx (m_x M) g) = Inr r"
proof -
  have ok: "llt_succeeds (xtgx (m_x M) g)"
    using pd by (rule posdef_llt_succeeds)
  have rx: "rows (m_x M) = length g"
    using con by (simp add: consistent_def)
  have pd': "posdef (xtgx (permute_cols p (m_x M)) g)"
    by (rule posdef_xtgx_permuted [OF pd p rx])
  have ok': "llt_succeeds (xtgx (permute_cols p (m_x M)) g)"
    using pd' by (rule posdef_llt_succeeds)
  have rx': "rows (permute_cols p (m_x M)) = length g"
    using rx by (simp add: permute_shape)
  define k where "k = cols (m_x M)"
  define F where "F i = stat_cor S (row (fin_m (m_c M)) i)
      (row (estimate_c_direct (fin_m (m_x M)) (fin_m (m_y M)) (map Fin g)
         (invxtgx (m_x M) g)) i)" for i
  define F' where "F' i = stat_cor S (row (fin_m (m_c (relabel p M))) i)
      (row (estimate_c_direct (fin_m (m_x (relabel p M))) (fin_m (m_y (relabel p M)))
         (map Fin g) (invxtgx (m_x (relabel p M)) g)) i)" for i
  have pk: "is_perm k p"
    using p by (simp add: k_def)
  have k': "cols (m_x (relabel p M)) = k"
    by (simp add: relabel_def permute_shape k_def)
  have c: "estimate_c_direct (fin_m (m_x M)) (fin_m (m_y M)) (map Fin g) (invxtgx (m_x M) g) =
             fin_m (estimate_c_direct (m_x M) (m_y M) g (invxtgx_exact (m_x M) g))"
    using rx by (simp add: invxtgx_posdef(1) [OF rx pd] fin_estimate_c_direct)
  have c': "estimate_c_direct (fin_m (permute_cols p (m_x M))) (fin_m (m_y M)) (map Fin g)
              (invxtgx (permute_cols p (m_x M)) g) =
            fin_m (estimate_c_direct (permute_cols p (m_x M)) (m_y M) g
              (invxtgx_exact (permute_cols p (m_x M)) g))"
    using rx' by (simp add: invxtgx_posdef(1) [OF rx' pd'] fin_estimate_c_direct)
  have F': "F' i = F (p ! i)" if "i < k" for i
  proof -
    have "row (permute_rows p (m_c M)) i = row (m_c M) (p ! i)"
      by (simp add: row_def permute_shape)
    then show ?thesis
      using relabel_c_hat [OF con p ok ok', of i] that
      by (simp add: relabel_def F_def F'_def k_def c c' fin_row)
  qed
  have "evaluate S (relabel p M) g (invxtgx (m_x (relabel p M)) g) = Inr r \<longleftrightarrow>
          (\<forall>i<k. \<not> isl (F' i)) \<and> r = (Fin 0 - (\<Sum>i<k. projr (F' i))) / Fin (real k)"
    unfolding F'_def k' [symmetric] by (rule evaluate_characterised [OF relabel_consistent [OF con]])
  also have "(\<forall>i<k. \<not> isl (F' i)) \<longleftrightarrow> (\<forall>i<k. \<not> isl (F (p ! i)))"
    by (simp add: F')
  also have "(\<Sum>i<k. projr (F' i)) = (\<Sum>i<k. projr (F (p ! i)))"
    by (intro sum.cong refl) (simp add: F')
  also have "(\<forall>i<k. \<not> isl (F (p ! i))) \<longleftrightarrow> (\<forall>i<k. \<not> isl (F i))"
    by (rule is_perm_all [OF pk, of "\<lambda>i. \<not> isl (F i)"])
  also have "(\<Sum>i<k. projr (F (p ! i))) = (\<Sum>i<k. projr (F i))"
    by (rule is_perm_sum [OF pk, of "\<lambda>i. projr (F i)"])
  also have "(\<forall>i<k. \<not> isl (F i)) \<and> r = (Fin 0 - (\<Sum>i<k. projr (F i))) / Fin (real k) \<longleftrightarrow>
               evaluate S M g (invxtgx (m_x M) g) = Inr r"
    unfolding F_def k_def by (rule evaluate_characterised [OF con, symmetric])
  finally show ?thesis .
qed

section \<open>The second example model, evaluated\<close>

lemma ex2_x_simps: "rows ex2_x = 2" "cols ex2_x = 2" "coeff ex2_x i j = [[1, 1], [0, 1]] ! i ! j"
  by (simp_all add: ex2_x_def of_rows_def)

lemma ex2_y_simps: "rows ex2_y = 2" "cols ex2_y = 3"
  "coeff ex2_y i j = [[2, 0, - 2], [1, 1, - 2]] ! i ! j"
  by (simp_all add: ex2_y_def of_rows_def)

lemma ex2_c_simps: "rows ex2_c = 2" "cols ex2_c = 3"
  "coeff ex2_c i j = [[1, - 1, 0], [1, 1, - 2]] ! i ! j"
  by (simp_all add: ex2_c_def of_rows_def)

lemma ex2_fields: "m_x ex2_model = ex2_x" "m_y ex2_model = ex2_y" "m_c ex2_model = ex2_c"
  "sint (m_ngenes ex2_model) = 2" "sint (m_ncells ex2_model) = 2"
  "sint (m_nsamples ex2_model) = 3"
  by (simp_all add: ex2_model_def)

lemma less2: "j < 2 \<Longrightarrow> j = 0 \<or> j = Suc 0" for j :: nat
  by arith

lemma less3: "j < 3 \<Longrightarrow> j = 0 \<or> j = Suc 0 \<or> j = Suc (Suc 0)" for j :: nat
  by arith

lemma ex2_gram:
  "rows (xtgx ex2_x [1, 1]) = 2" "cols (xtgx ex2_x [1, 1]) = 2"
  "coeff (xtgx ex2_x [1, 1]) 0 0 = 1" "coeff (xtgx ex2_x [1, 1]) 0 (Suc 0) = 1"
  "coeff (xtgx ex2_x [1, 1]) (Suc 0) 0 = 1" "coeff (xtgx ex2_x [1, 1]) (Suc 0) (Suc 0) = 2"
  by (simp_all add: xtgx_shape xtgx_coeff ex2_x_simps eval_nat_numeral)

lemma posdef_2x2:
  assumes "rows A = 2" "cols A = 2" "coeff A 0 0 = 1" "coeff A 0 (Suc 0) = 1"
    "coeff A (Suc 0) 0 = 1" "coeff A (Suc 0) (Suc 0) = 1 + d\<^sup>2" "d \<noteq> 0"
  shows "posdef A"
  unfolding posdef_def
proof (intro conjI allI impI)
  show "symmetric_m A"
    using assms by (auto simp: symmetric_m_def dest!: less2)
  fix v :: "nat \<Rightarrow> real"
  assume "\<exists>i<rows A. v i \<noteq> 0"
  then have nz: "v 0 \<noteq> 0 \<or> v (Suc 0) \<noteq> 0"
    using assms by (auto dest: less2)
  have "quad_form A v = (v 0 + v (Suc 0))\<^sup>2 + (d * v (Suc 0))\<^sup>2"
    using assms by (simp add: quad_form_def eval_nat_numeral power2_eq_square algebra_simps)
  moreover have "0 < (v 0 + v (Suc 0))\<^sup>2 + (d * v (Suc 0))\<^sup>2"
    using nz assms(7) by (auto simp: sum_power2_gt_zero_iff)
  ultimately show "0 < quad_form A v"
    by simp
qed

lemma ex2_posdef: "posdef (xtgx ex2_x [1, 1])"
  by (rule posdef_2x2 [where d = 1]) (simp_all add: ex2_gram)

lemma ex2_xi:
  "coeff (invxtgx_exact ex2_x [1, 1]) 0 0 = 2" "coeff (invxtgx_exact ex2_x [1, 1]) 0 (Suc 0) = - 1"
  "coeff (invxtgx_exact ex2_x [1, 1]) (Suc 0) 0 = - 1" "coeff (invxtgx_exact ex2_x [1, 1]) (Suc 0) (Suc 0) = 1"
  by (simp_all add: invxtgx_exact_def llt_solve_exact_def llt_unblocked.simps solve_lower.simps ex2_gram
      Identity_def ex2_x_simps Let_def eval_nat_numeral)

lemma ex2_c_hat_coeff:
  assumes "j < 3"
  shows "coeff (estimate_c_direct ex2_x ex2_y [1, 1] (invxtgx_exact ex2_x [1, 1])) 0 j = [1, - 1, 0] ! j"
    and "coeff (estimate_c_direct ex2_x ex2_y [1, 1] (invxtgx_exact ex2_x [1, 1])) (Suc 0) j =
           [1, 1, - 2] ! j"
  using less3 [OF assms]
  by (auto simp: estimate_c_direct_coeff shape_invxtgx_exact ex2_xi ex2_x_simps ex2_y_simps
      eval_nat_numeral)

lemma ex2_c_hat:
  "row (estimate_c_direct ex2_x ex2_y [1, 1] (invxtgx_exact ex2_x [1, 1])) 0 = [1, - 1, 0]"
  "row (estimate_c_direct ex2_x ex2_y [1, 1] (invxtgx_exact ex2_x [1, 1])) (Suc 0) = [1, 1, - 2]"
  by (simp_all add: row_def shape_estimate_c_direct ex2_y_simps ex2_c_hat_coeff eval_nat_numeral)

lemma ex2_row_c: "row ex2_c 0 = [1, - 1, 0]" "row ex2_c (Suc 0) = [1, 1, - 2]"
  by (simp_all add: row_def ex2_c_simps eval_nat_numeral)

lemma ex2_cov:
  "cov_spec [1, - 1, 0] [1, - 1, 0] = 2 / 3" "cov_spec [1, 1, - 2] [1, 1, - 2] = 2"
  "cov_spec [1, 1, - 2] [- 1, 1, 0] = 0" "cov_spec [- 1, 1, 0] [- 1, 1, 0] = 2 / 3"
  "cov_spec [1, - 1, 0] [2, 0, - 2] = 2 / 3" "cov_spec [2, 0, - 2] [2, 0, - 2] = 8 / 3"
  by (simp_all add: cov_spec_def mean_spec_def eval_nat_numeral)

lemma ex2_cor:
  "cor_spec [1, - 1, 0] [1, - 1, 0] = Inr 1" "cor_spec [1, 1, - 2] [1, 1, - 2] = Inr 1"
  by (simp_all add: cor_spec_def std_spec_def ex2_cov)

lemma sqrt_2_3_8_3: "sqrt (2 / 3) * sqrt (8 / 3) = 4 / 3"
proof -
  have "sqrt (2 / 3) * sqrt (8 / 3) = sqrt (16 / 9)"
    by (simp add: real_sqrt_mult [symmetric])
  also have "\<dots> = 4 / 3"
    by (rule real_sqrt_unique) (simp_all add: power2_eq_square)
  finally show ?thesis .
qed

lemma ex2_cor_swapped:
  "cor_spec [1, 1, - 2] [- 1, 1, 0] = Inr 0" "cor_spec [1, - 1, 0] [2, 0, - 2] = Inr (1 / 2)"
  by (simp_all add: cor_spec_def std_spec_def ex2_cov sqrt_2_3_8_3)

lemma ex2_c_hat_fin:
  "estimate_c_direct (fin_m ex2_x) (fin_m ex2_y) [Fin 1, Fin 1] (invxtgx ex2_x [1, 1]) =
     fin_m (estimate_c_direct ex2_x ex2_y [1, 1] (invxtgx_exact ex2_x [1, 1]))"
  using fin_estimate_c_direct [of ex2_x "[1, 1]" ex2_y "invxtgx_exact ex2_x [1, 1]"]
    invxtgx_posdef(1) [OF _ ex2_posdef]
  by (simp add: ex2_x_simps)

lemma ex2_evaluate:
  "evaluate stat_spec ex2_model [1, 1] (invxtgx (m_x ex2_model) [1, 1]) = Inr (Fin (- 1))"
  by (simp add: evaluate_def Let_def ex2_fields ex2_c_hat_fin shape_invxtgx shape_invxtgx_exact
      shape_estimate_c_direct fin_m_simps fin_row ex2_x_simps ex2_y_simps evaluate_loop.simps
      stat_spec_def ex2_c_hat ex2_row_c ex2_cor dbl_defs eval_nat_numeral)

lemma ex2_consistent: "consistent ex2_model [a, b]"
  by (simp add: consistent_def ex2_fields ex2_x_simps ex2_y_simps ex2_c_simps)

lemma ex2_xtgxi_simps: "rows ex2_xtgxi = 2" "cols ex2_xtgxi = 2"
  "coeff ex2_xtgxi i j = [[5 / 4, - (1 / 4)], [- (1 / 4), 1 / 4]] ! i ! j"
  by (simp_all add: ex2_xtgxi_def of_rows_def)

lemma ex2w_gram:
  "rows (weighted_gram ex2_x [1, 4]) = 2" "cols (weighted_gram ex2_x [1, 4]) = 2"
  "coeff (weighted_gram ex2_x [1, 4]) 0 0 = 1" "coeff (weighted_gram ex2_x [1, 4]) 0 (Suc 0) = 1"
  "coeff (weighted_gram ex2_x [1, 4]) (Suc 0) 0 = 1"
  "coeff (weighted_gram ex2_x [1, 4]) (Suc 0) (Suc 0) = 5"
  by (simp_all add: weighted_gram_def ex2_x_simps eval_nat_numeral)

lemma ex2w_posdef: "posdef (weighted_gram ex2_x [1, 4])"
  by (rule posdef_2x2 [where d = 2]) (simp_all add: ex2w_gram)

lemma ex2w_inverse: "inverse_of (weighted_gram ex2_x [1, 4]) ex2_xtgxi"
  by (simp add: inverse_of_def ex2w_gram ex2_xtgxi_simps eval_nat_numeral All_less_Suc)

lemma ex2w_c_hat_coeff:
  assumes "j < 3"
  shows "coeff (c_hat_spec ex2_x ex2_y [1, 4] ex2_xtgxi) 0 j = [1, - 1, 0] ! j"
    and "coeff (c_hat_spec ex2_x ex2_y [1, 4] ex2_xtgxi) (Suc 0) j = [1, 1, - 2] ! j"
  using less3 [OF assms]
  by (auto simp: c_hat_spec_def ex2_xtgxi_simps ex2_x_simps ex2_y_simps eval_nat_numeral)

lemma ex2w_c_hat:
  "row (c_hat_spec ex2_x ex2_y [1, 4] ex2_xtgxi) 0 = [1, - 1, 0]"
  "row (c_hat_spec ex2_x ex2_y [1, 4] ex2_xtgxi) (Suc 0) = [1, 1, - 2]"
  by (simp_all add: row_def c_hat_spec_def [of ex2_x ex2_y, THEN arg_cong [where f = cols]]
      ex2_y_simps ex2w_c_hat_coeff eval_nat_numeral)

theorem evaluate_score_witness:
  "consistent ex2_model [1, 4] \<and> posdef (weighted_gram (m_x ex2_model) [1, 4]) \<and>
   inverse_of (weighted_gram (m_x ex2_model) [1, 4]) ex2_xtgxi \<and>
   row (c_hat_spec (m_x ex2_model) (m_y ex2_model) [1, 4] ex2_xtgxi) 0 = [1, - 1, 0] \<and>
   row (c_hat_spec (m_x ex2_model) (m_y ex2_model) [1, 4] ex2_xtgxi) 1 = [1, 1, - 2] \<and>
   stat_cor stat_spec (map Fin (row (m_c ex2_model) 0))
     (map Fin (row (c_hat_spec (m_x ex2_model) (m_y ex2_model) [1, 4] ex2_xtgxi) 0)) =
     Inr (Fin 1) \<and>
   stat_cor stat_spec (map Fin (row (m_c ex2_model) 1))
     (map Fin (row (c_hat_spec (m_x ex2_model) (m_y ex2_model) [1, 4] ex2_xtgxi) 1)) =
     Inr (Fin 1) \<and>
   coeff (invxtgx (m_x ex2_model) [1, 4]) 0 0 = Fin (5 / 4) \<and>
   row (estimate_c_direct (fin_m (m_x ex2_model)) (fin_m (m_y ex2_model)) (map Fin [1, 4])
          (invxtgx (m_x ex2_model) [1, 4])) 0 = map Fin [1, - 1, 0] \<and>
   row (estimate_c_direct (fin_m (m_x ex2_model)) (fin_m (m_y ex2_model)) (map Fin [1, 4])
          (invxtgx (m_x ex2_model) [1, 4])) 1 = map Fin [1, 1, - 2] \<and>
   evaluate stat_spec ex2_model [1, 4] (invxtgx (m_x ex2_model) [1, 4]) =
     Inr (Fin (- (1 / 2) * (1 + 1)))"
proof -
  let ?c = "c_hat_spec (m_x ex2_model) (m_y ex2_model) [1, 4] ex2_xtgxi"
  let ?e = "estimate_c_direct (fin_m (m_x ex2_model)) (fin_m (m_y ex2_model)) (map Fin [1, 4])
              (invxtgx (m_x ex2_model) [1, 4])"
  have rows: "row ?c 0 = [1, - 1, 0]" "row ?c (Suc 0) = [1, 1, - 2]"
    by (simp_all add: ex2_fields ex2w_c_hat)
  have c: "\<forall>i<cols (m_x ex2_model).
      stat_cor stat_spec (map Fin (row (m_c ex2_model) i)) (map Fin (row ?c i)) = Inr (Fin 1)"
    by (simp add: ex2_fields ex2w_c_hat ex2_x_simps stat_spec_def ex2_row_c ex2_cor
        eval_nat_numeral All_less_Suc)
  have h: "consistent ex2_model [1, 4]" "0 < cols (m_x ex2_model)"
      "posdef (weighted_gram (m_x ex2_model) [1, 4])"
      "inverse_of (weighted_gram (m_x ex2_model) [1, 4]) ex2_xtgxi"
    by (simp_all add: ex2_consistent ex2_fields ex2_x_simps ex2w_posdef ex2w_inverse)
  have "(\<forall>i<cols (m_x ex2_model). \<forall>j<cols (m_x ex2_model).
           coeff (invxtgx (m_x ex2_model) [1, 4]) i j = Fin (coeff ex2_xtgxi i j)) \<and>
        (\<forall>i<cols (m_x ex2_model). row ?e i = map Fin (row ?c i)) \<and>
        evaluate stat_spec ex2_model [1, 4] (invxtgx (m_x ex2_model) [1, 4]) =
          Inr (Fin (- (1 / real (cols (m_x ex2_model))) * (\<Sum>i<cols (m_x ex2_model). 1)))"
    by (rule evaluate_score [OF h c])
  then have "coeff (invxtgx (m_x ex2_model) [1, 4]) 0 0 = Fin (5 / 4)"
      and "row ?e 0 = map Fin [1, - 1, 0]" and "row ?e (Suc 0) = map Fin [1, 1, - 2]"
      and "evaluate stat_spec ex2_model [1, 4] (invxtgx (m_x ex2_model) [1, 4]) =
             Inr (Fin (- (1 / 2) * (1 + 1)))"
    using rows by (simp_all add: ex2_fields ex2_x_simps ex2_xtgxi_simps eval_nat_numeral)
  then show ?thesis
    using h c rows
    by (simp add: ex2_fields ex2_x_simps eval_nat_numeral All_less_Suc)
qed

lemma is_perm_swap: "is_perm 2 [Suc 0, 0]"
  by (simp add: is_perm_def)

theorem evaluate_relabel_invariant_witness:
  "consistent ex2_model [1, 1] \<and> is_perm (cols (m_x ex2_model)) [Suc 0, 0] \<and>
   posdef (xtgx (m_x ex2_model) [1, 1]) \<and>
   evaluate stat_spec ex2_model [1, 1] (invxtgx (m_x ex2_model) [1, 1]) = Inr (Fin (- 1)) \<and>
   evaluate stat_spec (relabel [Suc 0, 0] ex2_model) [1, 1]
     (invxtgx (m_x (relabel [Suc 0, 0] ex2_model)) [1, 1]) = Inr (Fin (- 1))"
proof -
  have h: "is_perm (cols (m_x ex2_model)) [Suc 0, 0]"
       "posdef (xtgx (m_x ex2_model) [1, 1])"
    by (simp_all add: ex2_fields ex2_x_simps is_perm_swap ex2_posdef)
  have "evaluate stat_spec (relabel [Suc 0, 0] ex2_model) [1, 1]
          (invxtgx (m_x (relabel [Suc 0, 0] ex2_model)) [1, 1]) = Inr (Fin (- 1))"
    using evaluate_relabel_invariant [OF ex2_consistent h, of stat_spec "Fin (- 1)"] ex2_evaluate
    by simp
  then show ?thesis
    using ex2_consistent h ex2_evaluate by simp
qed

lemma ex2r_fields:
  "m_x ex2_rows_swapped = permute_rows [Suc 0, 0] ex2_x" "m_y ex2_rows_swapped = ex2_y"
  "m_c ex2_rows_swapped = permute_rows [Suc 0, 0] ex2_c"
  "sint (m_ngenes ex2_rows_swapped) = 2" "sint (m_ncells ex2_rows_swapped) = 2"
  "sint (m_nsamples ex2_rows_swapped) = 3"
  by (simp_all add: ex2_rows_swapped_def ex2_model_def)

lemma ex2r_gram:
  "rows (xtgx (permute_rows [Suc 0, 0] ex2_x) [1, 1]) = 2"
  "cols (xtgx (permute_rows [Suc 0, 0] ex2_x) [1, 1]) = 2"
  "coeff (xtgx (permute_rows [Suc 0, 0] ex2_x) [1, 1]) 0 0 = 1"
  "coeff (xtgx (permute_rows [Suc 0, 0] ex2_x) [1, 1]) 0 (Suc 0) = 1"
  "coeff (xtgx (permute_rows [Suc 0, 0] ex2_x) [1, 1]) (Suc 0) 0 = 1"
  "coeff (xtgx (permute_rows [Suc 0, 0] ex2_x) [1, 1]) (Suc 0) (Suc 0) = 2"
  by (simp_all add: xtgx_shape xtgx_coeff permute_shape ex2_x_simps eval_nat_numeral)

lemma ex2r_xi:
  "coeff (invxtgx_exact (permute_rows [Suc 0, 0] ex2_x) [1, 1]) 0 0 = 2"
  "coeff (invxtgx_exact (permute_rows [Suc 0, 0] ex2_x) [1, 1]) 0 (Suc 0) = - 1"
  "coeff (invxtgx_exact (permute_rows [Suc 0, 0] ex2_x) [1, 1]) (Suc 0) 0 = - 1"
  "coeff (invxtgx_exact (permute_rows [Suc 0, 0] ex2_x) [1, 1]) (Suc 0) (Suc 0) = 1"
  by (simp_all add: invxtgx_exact_def llt_solve_exact_def llt_unblocked.simps solve_lower.simps ex2r_gram
      Identity_def permute_shape ex2_x_simps Let_def eval_nat_numeral)

lemma ex2r_c_hat_coeff:
  assumes "j < 3"
  shows "coeff (estimate_c_direct (permute_rows [Suc 0, 0] ex2_x) ex2_y [1, 1]
                  (invxtgx_exact (permute_rows [Suc 0, 0] ex2_x) [1, 1])) 0 j = [- 1, 1, 0] ! j"
    and "coeff (estimate_c_direct (permute_rows [Suc 0, 0] ex2_x) ex2_y [1, 1]
                  (invxtgx_exact (permute_rows [Suc 0, 0] ex2_x) [1, 1])) (Suc 0) j = [2, 0, - 2] ! j"
  using less3 [OF assms]
  by (auto simp: estimate_c_direct_coeff shape_invxtgx_exact ex2r_xi permute_shape ex2_x_simps
      ex2_y_simps eval_nat_numeral)

lemma ex2r_c_hat:
  "row (estimate_c_direct (permute_rows [Suc 0, 0] ex2_x) ex2_y [1, 1]
          (invxtgx_exact (permute_rows [Suc 0, 0] ex2_x) [1, 1])) 0 = [- 1, 1, 0]"
  "row (estimate_c_direct (permute_rows [Suc 0, 0] ex2_x) ex2_y [1, 1]
          (invxtgx_exact (permute_rows [Suc 0, 0] ex2_x) [1, 1])) (Suc 0) = [2, 0, - 2]"
  by (simp_all add: row_def shape_estimate_c_direct ex2_y_simps ex2r_c_hat_coeff eval_nat_numeral)

lemma ex2r_row_c:
  "row (permute_rows [Suc 0, 0] ex2_c) 0 = [1, 1, - 2]"
  "row (permute_rows [Suc 0, 0] ex2_c) (Suc 0) = [1, - 1, 0]"
  by (simp_all add: row_def permute_shape ex2_c_simps eval_nat_numeral)

lemma ex2r_posdef: "posdef (xtgx (permute_rows [Suc 0, 0] ex2_x) [1, 1])"
  by (rule posdef_2x2 [where d = 1]) (simp_all add: ex2r_gram)

lemma ex2r_c_hat_fin:
  "estimate_c_direct (fin_m (permute_rows [Suc 0, 0] ex2_x)) (fin_m ex2_y) [Fin 1, Fin 1]
     (invxtgx (permute_rows [Suc 0, 0] ex2_x) [1, 1]) =
   fin_m (estimate_c_direct (permute_rows [Suc 0, 0] ex2_x) ex2_y [1, 1]
     (invxtgx_exact (permute_rows [Suc 0, 0] ex2_x) [1, 1]))"
  using fin_estimate_c_direct [of "permute_rows [Suc 0, 0] ex2_x" "[1, 1]" ex2_y
      "invxtgx_exact (permute_rows [Suc 0, 0] ex2_x) [1, 1]"]
    invxtgx_posdef(1) [OF _ ex2r_posdef]
  by (simp add: permute_shape ex2_x_simps)

lemma ex2r_evaluate:
  "evaluate stat_spec ex2_rows_swapped [1, 1] (invxtgx (m_x ex2_rows_swapped) [1, 1]) =
     Inr (Fin (- (1 / 4)))"
  by (simp add: evaluate_def Let_def ex2r_fields ex2r_c_hat_fin shape_invxtgx
      shape_invxtgx_exact shape_estimate_c_direct fin_m_simps fin_row permute_shape ex2_x_simps ex2_y_simps
      evaluate_loop.simps stat_spec_def ex2r_c_hat ex2r_row_c ex2_cor_swapped dbl_defs
      eval_nat_numeral)

text \<open>
  C5 as stated permutes the rows of \<open>X\<close> together with the rows of \<open>C\<close>. The rows of
  \<open>X\<close> are the genes, not the cell types: exchanging the two rows of \<open>X\<close> and the two
  rows of \<open>C\<close> in the example changes the score from \<open>-1\<close> to \<open>-1/4\<close>.
\<close>

theorem evaluate_rows_of_X_permuted_differs:
  "m_x ex2_rows_swapped = permute_rows [Suc 0, 0] (m_x ex2_model) \<and>
   m_c ex2_rows_swapped = permute_rows [Suc 0, 0] (m_c ex2_model) \<and>
   m_y ex2_rows_swapped = m_y ex2_model \<and>
   evaluate stat_spec ex2_model [1, 1] (invxtgx (m_x ex2_model) [1, 1]) = Inr (Fin (- 1)) \<and>
   evaluate stat_spec ex2_rows_swapped [1, 1] (invxtgx (m_x ex2_rows_swapped) [1, 1]) =
     Inr (Fin (- (1 / 4)))"
  using ex2_evaluate ex2r_evaluate
  by (simp add: ex2r_fields ex2_fields)

end
